theory Spec2Isabelle
  imports Main "HOL-Library.Word" "HOL-Library.List_Lexorder" "HOL-Library.Char_ord"
begin

unbundle bit_operations_syntax


section \<open>Common types\<close>

text \<open>
  A \<open>Slice\<close> is a byte string. \<open>Slice::compare\<close> is memcmp order with the shorter
  prefix first, which is the lexicographic order of \<open>HOL-Library.List_Lexorder\<close> over
  the byte order of \<open>HOL-Library.Char_ord\<close>.
\<close>

type_synonym Slice = string
type_synonym Row = Slice
type_synonym Timestamp = nat
type_synonym OpId = nat
type_synonym Arena = "Slice list"

datatype Status =
    OK
  | AlreadyPresent string
  | NotFound string
  | NotSupported string
  | InvalidArgument string
  | IOError string

definition Slice_compare :: "Slice \<Rightarrow> Slice \<Rightarrow> int" where
  "Slice_compare a b = (if a < b then - 1 else if a = b then 0 else 1)"

section \<open>memrowset.cc: rows, mutation chains and the row set\<close>

text \<open>
  Modelled from the spec: the change list and its decoder (\<open>RowChangeListDecoder\<close> is not
  part of the sources at hand). A change list is an UPDATE, a DELETE marker or a REINSERT
  of a full row; \<open>kUndecodable\<close> stands for the encodings on which \<open>decoder.Init()\<close>
  fails.
\<close>

datatype RowChangeList =
    kUpdate Slice
  | kDelete
  | kReinsert Row
  | kUndecodable Slice

fun decoder_Init :: "RowChangeList \<Rightarrow> Status" where
  "decoder_Init (kUndecodable b) = InvalidArgument ''bad changelist''"
| "decoder_Init c = OK"

fun is_delete :: "RowChangeList \<Rightarrow> bool" where
  "is_delete kDelete = True"
| "is_delete c = False"

fun is_reinsert :: "RowChangeList \<Rightarrow> bool" where
  "is_reinsert (kReinsert r) = True"
| "is_reinsert c = False"

text \<open>
  A mutation node; the chain hanging off \<open>redo_head\<close> through \<open>next()\<close> is the list of
  its nodes in chain order. Throughout, a data member that the source writes with a
  trailing underscore (\<open>tree_\<close>, \<open>state_\<close>, \<open>usage_\<close>) is the field with the prefix
  \<open>m_\<close> (\<open>m_tree\<close>, \<open>m_state\<close>, \<open>m_usage\<close>).
\<close>

record Mutation =
  m_timestamp :: Timestamp
  m_changelist :: RowChangeList

record MRSRow =
  insertion_timestamp :: Timestamp
  redo_head :: "Mutation list"
  row_slice :: Row

text \<open>
  \<open>MRSRow::IsGhost\<close>. \<open>None\<close> is the \<open>LOG(FATAL)\<close> on a change list that does not
  decode; the two \<open>DCHECK\<close>s are compiled out of a release build and are not modelled.
\<close>

fun IsGhost_loop :: "bool \<Rightarrow> Mutation list \<Rightarrow> bool option" where
  "IsGhost_loop is_ghost [] = Some is_ghost"
| "IsGhost_loop is_ghost (mut # rest) =
     (if decoder_Init (m_changelist mut) \<noteq> OK then None
      else if is_delete (m_changelist mut) then IsGhost_loop True rest
      else if is_reinsert (m_changelist mut) then IsGhost_loop False rest
      else IsGhost_loop is_ghost rest)"

definition IsGhost :: "MRSRow \<Rightarrow> bool option" where
  "IsGhost row = IsGhost_loop False (redo_head row)"

text \<open>
  Modelled from the spec: the concurrent sorted index (4.2). It is the list of its
  (encoded key, value slot) entries in key order; a prepared mutation looks the key up,
  and its \<open>Insert\<close> puts the entry at its place in the order.
\<close>

type_synonym MSBTree = "(Slice \<times> MRSRow) list"

definition Prepare :: "MSBTree \<Rightarrow> Slice \<Rightarrow> MRSRow option" where
  "Prepare tree key = map_of tree key"

fun tree_Insert :: "Slice \<Rightarrow> MRSRow \<Rightarrow> MSBTree \<Rightarrow> MSBTree" where
  "tree_Insert k v [] = [(k, v)]"
| "tree_Insert k v ((k', v') # t) =
     (if k < k' then (k, v) # (k', v') # t else (k', v') # tree_Insert k v t)"

definition set_current_value :: "Slice \<Rightarrow> MRSRow \<Rightarrow> MSBTree \<Rightarrow> MSBTree" where
  "set_current_value key v tree = map (\<lambda>(k, v'). if k = key then (k, v) else (k, v')) tree"

text \<open>
  Modelled from the spec: the forward iterator of the index. Its position is an index
  into the entry list; it is valid while it points at an entry.
\<close>

definition iter_SeekAtOrAfter :: "MSBTree \<Rightarrow> Slice \<Rightarrow> nat \<times> bool \<times> bool" where
  "iter_SeekAtOrAfter tree key =
     (let pos = length (takeWhile (\<lambda>(k, v). k < key) tree)
      in (pos, pos < length tree \<and> fst (tree ! pos) = key, pos < length tree))"

definition iter_IsValid :: "MSBTree \<Rightarrow> nat \<Rightarrow> bool" where
  "iter_IsValid tree pos = (pos < length tree)"

definition iter_Next :: "MSBTree \<Rightarrow> nat \<Rightarrow> nat \<times> bool" where
  "iter_Next tree pos = (Suc pos, Suc pos < length tree)"

text \<open>
  The collaborators reached through narrow contracts (schema and key codec, arena copy,
  row projection, delta projection, footprint of the arena, the throttle flag) are
  parameters of the model.
\<close>

record Env =
  EncodeComparableKey :: "Row \<Rightarrow> Slice"
  CopyRow :: "Row \<Rightarrow> Status"
  memory_footprint :: "MSBTree \<Rightarrow> 64 word"
  FLAGS_memrowset_throttle_mb :: "32 word"
  projector_Init :: Status
  delta_projector_Init :: Status
  ProjectRowForRead :: "Row \<Rightarrow> Arena option \<Rightarrow> Status + Row \<times> Arena option"
  ApplyUpdate :: "Slice \<Rightarrow> Row \<Rightarrow> Arena option \<Rightarrow> Status + Row \<times> Arena option"

record MemRowSet =
  m_id :: int
  m_tree :: MSBTree
  m_anchorer :: "OpId option"
  m_debug_insert_count :: nat
  m_debug_update_count :: nat
  m_has_logged_throttling :: bool
  m_warnings :: "string list"
  m_slept_us :: "nat list"

text \<open>
  Modelled from the spec: the anchorer (4.6) holds the smallest operation identifier ever
  submitted, initially nil.
\<close>

definition AnchorIfMinimum :: "OpId \<Rightarrow> MemRowSet \<Rightarrow> MemRowSet" where
  "AnchorIfMinimum op_id s =
     (case m_anchorer s of
        None \<Rightarrow> s\<lparr>m_anchorer := Some op_id\<rparr>
      | Some a \<Rightarrow> if op_id < a then s\<lparr>m_anchorer := Some op_id\<rparr> else s)"

text \<open>
  \<open>MemRowSet::SlowMutators\<close>. The sleep is recorded in \<open>m_slept_us\<close>, the warning in
  \<open>m_warnings\<close>. The arithmetic is that of the machine: the flag is an \<open>int32\<close> and
  its product with 1024 * 1024 is taken in 32 bits, where it wraps from 2048 MB on (as the
  compiled code does); the product is sign-extended to the 64 bits of the footprint, a
  \<open>size_t\<close>, the difference wraps in 64 bits and is read as the signed \<open>ssize_t\<close>. The
  quotient is taken of a positive \<open>over_mem\<close> only, where the truncating division of C++
  and \<open>div\<close> agree.
\<close>

definition SlowMutators :: "Env \<Rightarrow> MemRowSet \<Rightarrow> MemRowSet" where
  "SlowMutators env s =
     (if FLAGS_memrowset_throttle_mb env = 0 then s
      else
        let over_mem = memory_footprint env (m_tree s)
                         - scast (FLAGS_memrowset_throttle_mb env * 1024 * 1024)
        in if 0 <s over_mem then
             let s1 = (if \<not> m_has_logged_throttling s
                       then s\<lparr>m_has_logged_throttling := True,
                              m_warnings := m_warnings s @ [''Throttling memrowset insert rate'']\<rparr>
                       else s);
                 us_to_sleep = nat (sint over_mem div 1024 div 512)
             in s1\<lparr>m_slept_us := m_slept_us s1 @ [us_to_sleep]\<rparr>
           else s)"

text \<open>
  \<open>MemRowSet::Reinsert\<close>, on the row found under \<open>enc_key\<close>: copy the row into the
  arena, encode the REINSERT change list from the copy, and append the mutation node to
  the chain of the row.
\<close>

definition Reinsert ::
  "Env \<Rightarrow> MemRowSet \<Rightarrow> Timestamp \<Rightarrow> Row \<Rightarrow> Slice \<Rightarrow> MRSRow \<Rightarrow> Status \<times> MemRowSet" where
  "Reinsert env s timestamp row enc_key ms_row =
     (if CopyRow env row \<noteq> OK then (CopyRow env row, s)
      else
        let mut = \<lparr>m_timestamp = timestamp, m_changelist = kReinsert row\<rparr>;
            ms_row' = ms_row\<lparr>redo_head := redo_head ms_row @ [mut]\<rparr>
        in (OK, s\<lparr>m_tree := set_current_value enc_key ms_row' (m_tree s)\<rparr>))"

text \<open>
  \<open>MemRowSet::Insert\<close>. The result is \<open>None\<close> when the process is terminated by the
  \<open>LOG(FATAL)\<close> of \<open>IsGhost\<close>. The schema of the row is the schema of the row set
  (the two schema checks at the head of the function hold by construction).
\<close>

definition Insert ::
  "Env \<Rightarrow> MemRowSet \<Rightarrow> Timestamp \<Rightarrow> Row \<Rightarrow> OpId \<Rightarrow> (Status \<times> MemRowSet) option" where
  "Insert env s timestamp row op_id =
     (let enc_key = EncodeComparableKey env row
      in case Prepare (m_tree s) enc_key of
           Some ms_row \<Rightarrow>
             (case IsGhost ms_row of
                None \<Rightarrow> None
              | Some False \<Rightarrow> Some (AlreadyPresent ''entry already present in memrowset'', s)
              | Some True \<Rightarrow> Some (Reinsert env s timestamp row enc_key ms_row))
         | None \<Rightarrow>
             (if CopyRow env row \<noteq> OK then Some (CopyRow env row, s)
              else
                let mrsrow = \<lparr>insertion_timestamp = timestamp, redo_head = [], row_slice = row\<rparr>;
                    s1 = s\<lparr>m_tree := tree_Insert enc_key mrsrow (m_tree s)\<rparr>;
                    s2 = AnchorIfMinimum op_id s1;
                    s3 = s2\<lparr>m_debug_insert_count := m_debug_insert_count s2 + 1\<rparr>
                in Some (OK, SlowMutators env s3)))"

text \<open>
  The out-parameters of \<open>MutateRow\<close> and \<open>CheckRowPresent\<close>: the probe statistics and
  the operation result, which lists the stores a mutation went to.
\<close>

record ProbeStats =
  mrs_consulted :: nat

record MemStoreTargetPB =
  mrs_id :: "int option"

record OperationResultPB =
  mutated_stores :: "MemStoreTargetPB list"

text \<open>
  \<open>MemRowSet::MutateRow\<close>, on the encoded key of the probe. \<open>None\<close> is the
  \<open>LOG(FATAL)\<close> of \<open>IsGhost\<close>.
\<close>

definition MutateRow ::
  "Env \<Rightarrow> MemRowSet \<Rightarrow> Timestamp \<Rightarrow> Slice \<Rightarrow> RowChangeList \<Rightarrow> OpId \<Rightarrow> ProbeStats
     \<Rightarrow> OperationResultPB \<Rightarrow> (Status \<times> MemRowSet \<times> ProbeStats \<times> OperationResultPB) option" where
  "MutateRow env s timestamp probe delta op_id stats result =
     (case Prepare (m_tree s) probe of
        None \<Rightarrow> Some (NotFound ''not in memrowset'', s, stats, result)
      | Some row \<Rightarrow>
          (case IsGhost row of
             None \<Rightarrow> None
           | Some True \<Rightarrow> Some (NotFound ''not in memrowset (ghost)'', s, stats, result)
           | Some False \<Rightarrow>
               let mut = \<lparr>m_timestamp = timestamp, m_changelist = delta\<rparr>;
                   row' = row\<lparr>redo_head := redo_head row @ [mut]\<rparr>;
                   s1 = s\<lparr>m_tree := set_current_value probe row' (m_tree s)\<rparr>;
                   result' = result\<lparr>mutated_stores :=
                               mutated_stores result @ [\<lparr>mrs_id = Some (m_id s)\<rparr>]\<rparr>;
                   stats' = stats\<lparr>mrs_consulted := mrs_consulted stats + 1\<rparr>;
                   s2 = AnchorIfMinimum op_id s1;
                   s3 = s2\<lparr>m_debug_update_count := m_debug_update_count s2 + 1\<rparr>
               in Some (OK, SlowMutators env s3, stats', result')))"

text \<open>\<open>MemRowSet::CheckRowPresent\<close>.\<close>

definition CheckRowPresent ::
  "MemRowSet \<Rightarrow> Slice \<Rightarrow> ProbeStats \<Rightarrow> (Status \<times> bool \<times> ProbeStats) option" where
  "CheckRowPresent s probe stats =
     (let stats' = stats\<lparr>mrs_consulted := mrs_consulted stats + 1\<rparr>
      in case Prepare (m_tree s) probe of
           None \<Rightarrow> Some (OK, False, stats')
         | Some row \<Rightarrow>
             (case IsGhost row of
                None \<Rightarrow> None
              | Some g \<Rightarrow> Some (OK, \<not> g, stats')))"

section \<open>memrowset.cc: the iterator\<close>

datatype ScanState = kUninitialized | kScanning | kFinished

record Iterator =
  m_memrowset :: MemRowSet
  m_iter :: nat
  m_mvcc_snap :: "Timestamp \<Rightarrow> bool"
  m_upper_bound :: "Slice option"
  m_state :: ScanState
  tmp_buf :: Slice

record EncodedKeyRange =
  lower_bound :: "Slice option"
  upper_bound :: "Slice option"

record ScanSpec =
  encoded_ranges :: "EncodedKeyRange list"

definition has_upper_bound :: "Iterator \<Rightarrow> bool" where
  "has_upper_bound it = (m_upper_bound it \<noteq> None)"

text \<open>
  Modelled from the spec: \<open>out_of_bounds\<close> (declared in the header, which is not part of
  the sources at hand). By 4.5 the scan stops at a key that is at or above the upper
  bound: ``Else if key \<open>\<ge>\<close> upper bound: transition to finished, stop''.
\<close>

definition out_of_bounds :: "Iterator \<Rightarrow> Slice \<Rightarrow> bool" where
  "out_of_bounds it key = (case m_upper_bound it of None \<Rightarrow> False | Some ub \<Rightarrow> Slice_compare key ub \<ge> 0)"

text \<open>
  The body of the loop of \<open>Iterator::Init\<close> over the ranges of the scan spec, in two
  halves: the lower bound of a range (with its early return, \<open>Inl\<close>) and its upper bound.
\<close>

definition Init_lower ::
  "Iterator \<Rightarrow> Slice option \<Rightarrow> EncodedKeyRange \<Rightarrow> Iterator + Iterator \<times> Slice option" where
  "Init_lower it max_lower_bound rng =
     (case lower_bound rng of
        None \<Rightarrow> Inr (it, max_lower_bound)
      | Some lb \<Rightarrow>
          if max_lower_bound = None \<or> Slice_compare lb (the max_lower_bound) > 0 then
            (case iter_SeekAtOrAfter (m_tree (m_memrowset it)) lb of
               (pos, exact, found) \<Rightarrow>
                 if \<not> found then Inl (it\<lparr>m_iter := pos, m_state := kFinished\<rparr>)
                 else Inr (it\<lparr>m_iter := pos\<rparr>, Some lb))
          else Inr (it, max_lower_bound))"

definition Init_upper :: "Iterator \<Rightarrow> EncodedKeyRange \<Rightarrow> Iterator" where
  "Init_upper it rng =
     (case upper_bound rng of
        None \<Rightarrow> it
      | Some ub \<Rightarrow>
          if \<not> has_upper_bound it \<or> Slice_compare ub (the (m_upper_bound it)) < 0
          then it\<lparr>m_upper_bound := Some ub\<rparr> else it)"

fun Init_ranges ::
  "Iterator \<Rightarrow> Slice option \<Rightarrow> EncodedKeyRange list \<Rightarrow> Iterator + Iterator \<times> Slice option" where
  "Init_ranges it max_lower_bound [] = Inr (it, max_lower_bound)"
| "Init_ranges it max_lower_bound (rng # rest) =
     (case Init_lower it max_lower_bound rng of
        Inl it' \<Rightarrow> Inl it'
      | Inr (it1, mlb1) \<Rightarrow> Init_ranges (Init_upper it1 rng) mlb1 rest)"

text \<open>
  \<open>MemRowSet::Iterator::Init\<close>; the spec pointer may be null. The \<open>DCHECK\<close> on the
  state and the verbose logging are not modelled.
\<close>

definition Init :: "Env \<Rightarrow> Iterator \<Rightarrow> ScanSpec option \<Rightarrow> Status \<times> Iterator" where
  "Init env it spec =
     (if projector_Init env \<noteq> OK then (projector_Init env, it)
      else if delta_projector_Init env \<noteq> OK then (delta_projector_Init env, it)
      else if spec \<noteq> None \<and> encoded_ranges (the spec) \<noteq> [] then
        (case Init_ranges it None (encoded_ranges (the spec)) of
           Inl it' \<Rightarrow> (OK, it')
         | Inr (it1, max_lower_bound) \<Rightarrow>
             (case max_lower_bound of
                None \<Rightarrow> (OK, it1\<lparr>m_state := kScanning\<rparr>)
              | Some lb \<Rightarrow>
                  (OK, it1\<lparr>m_iter := fst (iter_SeekAtOrAfter (m_tree (m_memrowset it1)) lb),
                           m_state := kScanning\<rparr>)))
      else (OK, it\<lparr>m_state := kScanning\<rparr>))"

text \<open>
  \<open>MemRowSet::Iterator::SeekAtOrAfter\<close>: the status, the \<open>exact\<close> out-parameter and
  the iterator after the call.
\<close>

definition SeekAtOrAfter :: "Env \<Rightarrow> Iterator \<Rightarrow> Slice \<Rightarrow> Status \<times> bool \<times> Iterator" where
  "SeekAtOrAfter env it key =
     (let buf = (if length key > 0 then EncodeComparableKey env key else [])
      in case iter_SeekAtOrAfter (m_tree (m_memrowset it)) buf of
           (pos, exact, found) \<Rightarrow>
             (if found \<or> length key = 0 then OK else NotFound ''no match in memrowset'',
              exact, it\<lparr>m_iter := pos, tmp_buf := buf\<rparr>))"

text \<open>
  Modelled from the spec: the destination row block. It has \<open>row_capacity\<close> row slots,
  of which the first \<open>nrows\<close> are in use, a selection bit for each row in use, and an
  arena (possibly none) for relocated data. \<open>Resize\<close> sets the number of rows in use
  and drops the selection bits beyond it.
\<close>

record RowBlock =
  row_capacity :: nat
  nrows :: nat
  rows :: "Row list"
  selection_vector :: "bool list"
  arena :: "Arena option"

definition Resize :: "nat \<Rightarrow> RowBlock \<Rightarrow> RowBlock" where
  "Resize n dst =
     dst\<lparr>nrows := n,
         selection_vector := take n (selection_vector dst) @ replicate (n - length (selection_vector dst)) False\<rparr>"

definition SetAllTrue :: "RowBlock \<Rightarrow> RowBlock" where
  "SetAllTrue dst = dst\<lparr>selection_vector := replicate (length (selection_vector dst)) True\<rparr>"

definition SetRowUnselected :: "nat \<Rightarrow> RowBlock \<Rightarrow> RowBlock" where
  "SetRowUnselected i dst = dst\<lparr>selection_vector := (selection_vector dst)[i := False]\<rparr>"

definition arena_Reset :: "RowBlock \<Rightarrow> RowBlock" where
  "arena_Reset dst = (case arena dst of None \<Rightarrow> dst | Some a \<Rightarrow> dst\<lparr>arena := Some []\<rparr>)"

text \<open>
  Modelled from the spec: \<open>ApplyMutationsToProjectedRow\<close> (4.5, defined in the header).
  The mutations whose timestamps are committed in the snapshot are applied in chain
  order onto the projected row: a DELETE clears the selection bit of the row, a REINSERT
  overwrites the row body (and the row is live again, scenario 2 of the spec), an UPDATE
  goes through the delta projector.
\<close>

fun ApplyMutations ::
  "Env \<Rightarrow> (Timestamp \<Rightarrow> bool) \<Rightarrow> Mutation list \<Rightarrow> Row \<Rightarrow> Arena option \<Rightarrow> bool
     \<Rightarrow> Status + Row \<times> Arena option \<times> bool" where
  "ApplyMutations env snap [] r a sel = Inr (r, a, sel)"
| "ApplyMutations env snap (mut # rest) r a sel =
     (if \<not> snap (m_timestamp mut) then ApplyMutations env snap rest r a sel
      else case m_changelist mut of
             kDelete \<Rightarrow> ApplyMutations env snap rest r a False
           | kReinsert r' \<Rightarrow>
               (case ProjectRowForRead env r' a of
                  Inl st \<Rightarrow> Inl st
                | Inr (r'', a') \<Rightarrow> ApplyMutations env snap rest r'' a' True)
           | kUpdate u \<Rightarrow>
               (case ApplyUpdate env u r a of
                  Inl st \<Rightarrow> Inl st
                | Inr (r'', a') \<Rightarrow> ApplyMutations env snap rest r'' a' sel)
           | kUndecodable b \<Rightarrow> Inl (decoder_Init (kUndecodable b)))"

definition ApplyMutationsToProjectedRow ::
  "Env \<Rightarrow> Iterator \<Rightarrow> Mutation list \<Rightarrow> RowBlock \<Rightarrow> nat \<Rightarrow> Status + RowBlock" where
  "ApplyMutationsToProjectedRow env it muts dst i =
     (case ApplyMutations env (m_mvcc_snap it) muts (rows dst ! i) (arena dst) (selection_vector dst ! i) of
        Inl st \<Rightarrow> Inl st
      | Inr (r, a, sel) \<Rightarrow>
          Inr (dst\<lparr>rows := (rows dst)[i := r], arena := a,
                   selection_vector := (selection_vector dst)[i := sel]\<rparr>))"

text \<open>
  One turn of the loop of \<open>Iterator::FetchRows\<close>, on the current entry \<open>(k, row)\<close> and
  the destination row \<open>fetched\<close>: it goes on (\<open>Continue\<close>), leaves the loop with the
  scan finished (\<open>Break\<close>) or returns an error status (\<open>Return\<close>). The block of code
  under \<open>#ifndef NDEBUG\<close> is not part of a release build and is not modelled.
\<close>

datatype LoopStep = Continue RowBlock | Break RowBlock | Return Status RowBlock

definition FetchRows_body ::
  "Env \<Rightarrow> Iterator \<Rightarrow> RowBlock \<Rightarrow> nat \<Rightarrow> Slice \<Rightarrow> MRSRow \<Rightarrow> LoopStep" where
  "FetchRows_body env it dst fetched k row =
     (if m_mvcc_snap it (insertion_timestamp row) then
        (if has_upper_bound it \<and> out_of_bounds it k then Break dst
         else
           case ProjectRowForRead env (row_slice row) (arena dst) of
             Inl st \<Rightarrow> Return st dst
           | Inr (r, a) \<Rightarrow>
               (let dst1 = dst\<lparr>rows := (rows dst)[fetched := r], arena := a\<rparr>
                in case ApplyMutationsToProjectedRow env it (redo_head row) dst1 fetched of
                     Inl st \<Rightarrow> Return st dst1
                   | Inr dst2 \<Rightarrow> Continue dst2))
      else Continue (SetRowUnselected fetched dst))"

text \<open>
  \<open>MemRowSet::Iterator::FetchRows\<close>: the do-while loop, from \<open>fetched\<close> rows on. The
  result is the status, the iterator, the block and the number of rows fetched;
  \<open>None\<close> is a read of the current entry through an iterator that is not valid, which
  the callers exclude.
\<close>

function FetchRows_loop ::
  "Env \<Rightarrow> Iterator \<Rightarrow> RowBlock \<Rightarrow> nat \<Rightarrow> (Status \<times> Iterator \<times> RowBlock \<times> nat) option" where
  "FetchRows_loop env it dst fetched =
     (if \<not> iter_IsValid (m_tree (m_memrowset it)) (m_iter it) then None
      else
        case m_tree (m_memrowset it) ! m_iter it of
          (k, row) \<Rightarrow>
            (case FetchRows_body env it dst fetched k row of
               Break dst' \<Rightarrow> Some (OK, it\<lparr>m_state := kFinished\<rparr>, dst', fetched)
             | Return st dst' \<Rightarrow> Some (st, it, dst', fetched)
             | Continue dst' \<Rightarrow>
                 (if snd (iter_Next (m_tree (m_memrowset it)) (m_iter it)) \<and> fetched + 1 < nrows dst'
                  then FetchRows_loop env
                         (it\<lparr>m_iter := fst (iter_Next (m_tree (m_memrowset it)) (m_iter it))\<rparr>)
                         dst' (fetched + 1)
                  else Some (OK, it\<lparr>m_iter := fst (iter_Next (m_tree (m_memrowset it)) (m_iter it))\<rparr>,
                             dst', fetched + 1))))"
  by pat_completeness auto
termination
  by (relation "measure (\<lambda>(env, it, dst, fetched). length (m_tree (m_memrowset it)) - m_iter it)")
     (auto simp: iter_Next_def iter_IsValid_def)

declare FetchRows_loop.simps [simp del]

definition FetchRows ::
  "Env \<Rightarrow> Iterator \<Rightarrow> RowBlock \<Rightarrow> (Status \<times> Iterator \<times> RowBlock \<times> nat) option" where
  "FetchRows env it dst = FetchRows_loop env it dst 0"

text \<open>
  \<open>MemRowSet::Iterator::NextBlock\<close>. The \<open>DCHECK\<close>s are not part of a release build.
\<close>

definition NextBlock ::
  "Env \<Rightarrow> Iterator \<Rightarrow> RowBlock \<Rightarrow> (Status \<times> Iterator \<times> RowBlock) option" where
  "NextBlock env it dst =
     (if \<not> iter_IsValid (m_tree (m_memrowset it)) (m_iter it)
        then Some (NotFound ''end of iter'', it, Resize 0 dst)
      else if m_state it \<noteq> kScanning then Some (OK, it, Resize 0 dst)
      else if row_capacity dst = 0 then Some (OK, it, dst)
      else
        case FetchRows env it (SetAllTrue (arena_Reset (Resize (row_capacity dst) dst))) of
          None \<Rightarrow> None
        | Some (st, it', dst', fetched) \<Rightarrow>
            if st \<noteq> OK then Some (st, it', dst')
            else Some (OK, it', Resize fetched dst'))"

text \<open>
  Modelled from the spec: the constructor of the iterator (declared in the header). A new
  iterator points at the start of the index, is uninitialized and has no upper bound.
\<close>

definition NewIterator :: "MemRowSet \<Rightarrow> (Timestamp \<Rightarrow> bool) \<Rightarrow> Iterator" where
  "NewIterator s snap =
     \<lparr>m_memrowset = s, m_iter = 0, m_mvcc_snap = snap, m_upper_bound = None,
      m_state = kUninitialized, tmp_buf = []\<rparr>"

subsection \<open>Notions used to state the properties of a scan\<close>

text \<open>
  The lower and the upper bounds that the ranges of a scan spec carry, the rows of a block
  that a caller reads (those in use whose selection bit is set), and the running maximum
  and minimum over a list of bounds.
\<close>

definition lower_bounds :: "EncodedKeyRange list \<Rightarrow> Slice list" where
  "lower_bounds rs = List.map_filter lower_bound rs"

definition upper_bounds :: "EncodedKeyRange list \<Rightarrow> Slice list" where
  "upper_bounds rs = List.map_filter upper_bound rs"

definition selected_rows :: "RowBlock \<Rightarrow> Row list" where
  "selected_rows dst = map (\<lambda>i. rows dst ! i) (filter (\<lambda>i. selection_vector dst ! i) [0..<nrows dst])"

fun max_opt :: "Slice option \<Rightarrow> Slice list \<Rightarrow> Slice option" where
  "max_opt m [] = m"
| "max_opt None (l # ls) = max_opt (Some l) ls"
| "max_opt (Some m) (l # ls) = max_opt (Some (max m l)) ls"

fun min_opt :: "Slice option \<Rightarrow> Slice list \<Rightarrow> Slice option" where
  "min_opt m [] = m"
| "min_opt None (u # us) = min_opt (Some u) us"
| "min_opt (Some m) (u # us) = min_opt (Some (min m u)) us"

text \<open>The iterator stands where a seek to the bound \<open>mlb\<close> puts it, and that seek found an entry.\<close>

definition seeked :: "Iterator \<Rightarrow> Slice option \<Rightarrow> bool" where
  "seeked it mlb =
     (case mlb of None \<Rightarrow> True
      | Some l \<Rightarrow> m_iter it = fst (iter_SeekAtOrAfter (m_tree (m_memrowset it)) l)
                  \<and> snd (snd (iter_SeekAtOrAfter (m_tree (m_memrowset it)) l)))"


section \<open>cache.cc: the hash table of a shard\<close>

text \<open>
  An \<open>LRUHandle\<close> is a heap-allocated entry; \<open>addr\<close> is its address. The members of
  the structure carry the prefix \<open>h_\<close>; \<open>key_data\<close> and \<open>key_length\<close> together are the
  byte string \<open>h_key\<close>. The three link members are not fields of the record: the chain of
  a bucket through \<open>next_hash\<close> is the list of the addresses on it, and the ring through
  \<open>next\<close> and \<open>prev\<close> around the dummy head \<open>lru_\<close> is the list of the addresses from
  \<open>lru_.next\<close> (oldest) to \<open>lru_.prev\<close> (newest). \<open>size_t\<close> is 64 bits wide.
\<close>

type_synonym addr = nat

record LRUHandle =
  h_value :: nat
  h_deleter :: nat
  h_charge :: "64 word"
  h_key :: Slice
  h_refs :: "32 word"
  h_hash :: "32 word"

type_synonym heap = "addr \<rightharpoonup> LRUHandle"

text \<open>
  \<open>HandleTable\<close>: \<open>m_list\<close> is the array of the bucket chains. The two counters are
  natural numbers: a table of 2^31 entries is beyond the memory of the machine, so the
  32-bit counters of the source do not wrap.
\<close>

record HandleTable =
  m_length :: nat
  m_elems :: nat
  m_list :: "addr list list"

text \<open>
  \<open>FindPointer\<close> walks the chain of the bucket \<open>hash & (length_ - 1)\<close> until it meets an
  entry of the same hash and key. The pointer to a slot that it returns is the pair of the
  bucket and the position on the chain, the position past the end being the trailing slot.
\<close>

fun FindPointer_chain :: "heap \<Rightarrow> Slice \<Rightarrow> 32 word \<Rightarrow> addr list \<Rightarrow> nat" where
  "FindPointer_chain hp key hash [] = 0"
| "FindPointer_chain hp key hash (p # chain) =
     (if h_hash (the (hp p)) \<noteq> hash \<or> key \<noteq> h_key (the (hp p))
      then Suc (FindPointer_chain hp key hash chain) else 0)"

definition FindPointer :: "heap \<Rightarrow> HandleTable \<Rightarrow> Slice \<Rightarrow> 32 word \<Rightarrow> nat \<times> nat" where
  "FindPointer hp t key hash =
     (let i = unat hash AND (m_length t - 1)
      in (i, FindPointer_chain hp key hash (m_list t ! i)))"

text \<open>What a slot holds: the entry at the position, or null in the trailing slot.\<close>

definition deref :: "HandleTable \<Rightarrow> nat \<times> nat \<Rightarrow> addr option" where
  "deref t ptr =
     (case ptr of (i, j) \<Rightarrow> if j < length (m_list t ! i) then Some (m_list t ! i ! j) else None)"

definition HandleTable_Lookup :: "heap \<Rightarrow> HandleTable \<Rightarrow> Slice \<Rightarrow> 32 word \<Rightarrow> addr option" where
  "HandleTable_Lookup hp t key hash = deref t (FindPointer hp t key hash)"

text \<open>
  \<open>HandleTable::Resize\<close>: the new length is 4 doubled until it is not below the number
  of elements (the test \<open>0 < new_length\<close> holds throughout, the loop starting from 4),
  and every entry of every old chain is pushed on the front of its new chain.
\<close>

function Resize_length :: "nat \<Rightarrow> nat \<Rightarrow> nat" where
  "Resize_length new_length elems =
     (if new_length < elems \<and> 0 < new_length then Resize_length (new_length * 2) elems
      else new_length)"
  by pat_completeness auto
termination
  by (relation "measure (\<lambda>(new_length, elems). elems - new_length)") auto

declare Resize_length.simps [simp del]

definition Resize_link :: "heap \<Rightarrow> nat \<Rightarrow> addr \<Rightarrow> addr list list \<Rightarrow> addr list list" where
  "Resize_link hp new_length h new_list =
     (let i = unat (h_hash (the (hp h))) AND (new_length - 1)
      in new_list[i := h # new_list ! i])"

definition HandleTable_Resize :: "heap \<Rightarrow> HandleTable \<Rightarrow> HandleTable" where
  "HandleTable_Resize hp t =
     (let new_length = Resize_length 4 (m_elems t);
          new_list = fold (\<lambda>chain new_list. fold (Resize_link hp new_length) chain new_list)
                       (m_list t) (replicate new_length [])
      in t\<lparr>m_list := new_list, m_length := new_length\<rparr>)"

definition HandleTable_new :: HandleTable where
  "HandleTable_new = HandleTable_Resize Map.empty \<lparr>m_length = 0, m_elems = 0, m_list = []\<rparr>"

text \<open>
  \<open>HandleTable::Insert\<close>: the entry takes the place of the old entry of the same key, or
  goes into the trailing slot of its chain; the result is the old entry (or null).
\<close>

definition HandleTable_Insert :: "heap \<Rightarrow> HandleTable \<Rightarrow> addr \<Rightarrow> addr option \<times> HandleTable" where
  "HandleTable_Insert hp t h =
     (case FindPointer hp t (h_key (the (hp h))) (h_hash (the (hp h))) of
        (i, j) \<Rightarrow>
          (case deref t (i, j) of
             Some old \<Rightarrow> (Some old, t\<lparr>m_list := (m_list t)[i := (m_list t ! i)[j := h]]\<rparr>)
           | None \<Rightarrow>
               (let t1 = t\<lparr>m_list := (m_list t)[i := m_list t ! i @ [h]],
                           m_elems := m_elems t + 1\<rparr>
                in (None, if m_elems t1 > m_length t1 then HandleTable_Resize hp t1 else t1))))"

text \<open>\<open>HandleTable::Remove\<close>: the entry of the key is unlinked from its chain.\<close>

definition HandleTable_Remove ::
  "heap \<Rightarrow> HandleTable \<Rightarrow> Slice \<Rightarrow> 32 word \<Rightarrow> addr option \<times> HandleTable" where
  "HandleTable_Remove hp t key hash =
     (case FindPointer hp t key hash of
        (i, j) \<Rightarrow>
          (case deref t (i, j) of
             Some result \<Rightarrow>
               (Some result,
                t\<lparr>m_list := (m_list t)[i := take j (m_list t ! i) @ drop (Suc j) (m_list t ! i)],
                  m_elems := m_elems t - 1\<rparr>)
           | None \<Rightarrow> (None, t)))"

section \<open>cache.cc: a shard of the cache\<close>

text \<open>
  \<open>LRUCache\<close>, a single shard, together with the part of the process that it acts on:
  the heap of the entries, the allocator (which hands out the addresses in turn and does
  not fail), the consumption of the memory tracker, and the calls of the deleters made so
  far (the entry freed, the deleter, and the key and the value passed to it). The mutex is
  not modelled: every operation runs under it from start to end.
\<close>

record LRUCache =
  m_capacity :: "64 word"
  m_usage :: "64 word"
  m_lru :: "addr list"
  m_table :: HandleTable
  heap :: heap
  next_free :: addr
  consumption :: "64 word"
  deleted :: "(addr \<times> nat \<times> Slice \<times> nat) list"

definition LRUCache_new :: "64 word \<Rightarrow> LRUCache" where
  "LRUCache_new capacity =
     \<lparr>m_capacity = capacity, m_usage = 0, m_lru = [], m_table = HandleTable_new,
      heap = Map.empty, next_free = 0, consumption = 0, deleted = []\<rparr>"

text \<open>
  \<open>LRUCache::Unref\<close>. The \<open>DCHECK\<close> is not part of a release build. Reading an entry
  is \<open>the (heap s e)\<close>: the operations follow allocated pointers only, which the
  invariant of the shard below maintains.
\<close>

definition Unref :: "LRUCache \<Rightarrow> addr \<Rightarrow> LRUCache" where
  "Unref s e =
     (let h = (the (heap s e))\<lparr>h_refs := h_refs (the (heap s e)) - 1\<rparr>
      in if h_refs h \<le> 0 then
           s\<lparr>m_usage := m_usage s - h_charge h,
             deleted := deleted s @ [(e, h_deleter h, h_key h, h_value h)],
             consumption := consumption s - h_charge h,
             heap := (heap s)(e := None)\<rparr>
         else s\<lparr>heap := (heap s)(e \<mapsto> h)\<rparr>)"

definition LRU_Remove :: "LRUCache \<Rightarrow> addr \<Rightarrow> LRUCache" where
  "LRU_Remove s e = s\<lparr>m_lru := remove1 e (m_lru s)\<rparr>"

definition LRU_Append :: "LRUCache \<Rightarrow> addr \<Rightarrow> LRUCache" where
  "LRU_Append s e = s\<lparr>m_lru := m_lru s @ [e]\<rparr>"

text \<open>\<open>LRUCache::Lookup\<close>: the handle (or null) and the shard after the call.\<close>

definition LRUCache_Lookup :: "LRUCache \<Rightarrow> Slice \<Rightarrow> 32 word \<Rightarrow> addr option \<times> LRUCache" where
  "LRUCache_Lookup s key hash =
     (case HandleTable_Lookup (heap s) (m_table s) key hash of
        None \<Rightarrow> (None, s)
      | Some e \<Rightarrow>
          (let h = the (heap s e);
               s1 = s\<lparr>heap := (heap s)(e \<mapsto> h\<lparr>h_refs := h_refs h + 1\<rparr>)\<rparr>
           in (Some e, LRU_Append (LRU_Remove s1 e) e)))"

text \<open>\<open>LRUCache::Release\<close>.\<close>

definition LRUCache_Release :: "LRUCache \<Rightarrow> addr \<Rightarrow> LRUCache" where
  "LRUCache_Release s handle = Unref s handle"

text \<open>
  The eviction loop at the end of \<open>LRUCache::Insert\<close>: while the usage is above the
  capacity and the LRU list is not empty, the oldest entry is taken off the list and out
  of the table, and the reference of the cache to it is dropped.
\<close>

definition evict_oldest :: "LRUCache \<Rightarrow> addr \<Rightarrow> LRUCache" where
  "evict_oldest s old =
     (let s1 = LRU_Remove s old;
          s2 = s1\<lparr>m_table := snd (HandleTable_Remove (heap s1) (m_table s1)
                                    (h_key (the (heap s1 old))) (h_hash (the (heap s1 old))))\<rparr>
      in Unref s2 old)"

function evict :: "LRUCache \<Rightarrow> LRUCache" where
  "evict s =
     (if m_usage s > m_capacity s \<and> m_lru s \<noteq> [] then evict (evict_oldest s (hd (m_lru s)))
      else s)"
  by pat_completeness auto
termination
proof (relation "measure (\<lambda>s. length (m_lru s))")
  show "wf (measure (\<lambda>s. length (m_lru s)))" by simp
next
  fix s :: LRUCache
  assume "m_capacity s < m_usage s \<and> m_lru s \<noteq> []"
  then have "length (remove1 (hd (m_lru s)) (m_lru s)) < length (m_lru s)"
    by (cases "m_lru s") simp_all
  then show "(evict_oldest s (hd (m_lru s)), s) \<in> measure (\<lambda>s. length (m_lru s))"
    by (simp add: evict_oldest_def Unref_def LRU_Remove_def Let_def)
qed

declare evict.simps [simp del]

text \<open>\<open>LRUCache::Insert\<close>: the handle of the new entry and the shard after the call.\<close>

definition LRUCache_Insert ::
  "LRUCache \<Rightarrow> Slice \<Rightarrow> 32 word \<Rightarrow> nat \<Rightarrow> 64 word \<Rightarrow> nat \<Rightarrow> addr \<times> LRUCache" where
  "LRUCache_Insert s key hash val charge deleter =
     (let e = next_free s;
          s1 = s\<lparr>heap := (heap s)(e \<mapsto> \<lparr>h_value = val, h_deleter = deleter, h_charge = charge,
                                         h_key = key, h_refs = 2, h_hash = hash\<rparr>),
                 next_free := Suc e\<rparr>;
          s2 = s1\<lparr>consumption := consumption s1 + charge\<rparr>;
          s3 = LRU_Append s2 e;
          s4 = s3\<lparr>m_usage := m_usage s3 + charge\<rparr>;
          ins = HandleTable_Insert (heap s4) (m_table s4) e;
          s5 = s4\<lparr>m_table := snd ins\<rparr>;
          s6 = (case fst ins of None \<Rightarrow> s5 | Some old \<Rightarrow> Unref (LRU_Remove s5 old) old)
      in (e, evict s6))"

text \<open>\<open>LRUCache::Erase\<close>.\<close>

definition LRUCache_Erase :: "LRUCache \<Rightarrow> Slice \<Rightarrow> 32 word \<Rightarrow> LRUCache" where
  "LRUCache_Erase s key hash =
     (case HandleTable_Remove (heap s) (m_table s) key hash of
        (None, t) \<Rightarrow> s
      | (Some e, t) \<Rightarrow> Unref (LRU_Remove (s\<lparr>m_table := t\<rparr>) e) e)"

section \<open>The callers of a shard\<close>

text \<open>
  A shard together with the handles that its callers hold: \<open>held e\<close> is the number of
  handles to the entry \<open>e\<close> that \<open>Insert\<close> and \<open>Lookup\<close> have returned and that have not
  been released yet. A caller keeps the contract of the cache: it releases only a handle
  that it holds, and it does not hold 2^32 handles to one entry. \<open>None\<close> is a call that
  breaks the contract.
\<close>

datatype Op =
    OpInsert Slice "32 word" nat "64 word" nat
  | OpLookup Slice "32 word"
  | OpRelease addr
  | OpErase Slice "32 word"

type_synonym Client = "LRUCache \<times> (addr \<Rightarrow> nat)"

fun step :: "Op \<Rightarrow> Client \<Rightarrow> Client option" where
  "step (OpInsert key hash val charge deleter) (s, held) =
     (case LRUCache_Insert s key hash val charge deleter of
        (e, s') \<Rightarrow> Some (s', held(e := held e + 1)))"
| "step (OpLookup key hash) (s, held) =
     (case LRUCache_Lookup s key hash of
        (None, s') \<Rightarrow> Some (s', held)
      | (Some e, s') \<Rightarrow> if held e + 2 < 2 ^ 32 then Some (s', held(e := held e + 1)) else None)"
| "step (OpRelease handle) (s, held) =
     (if held handle > 0 then Some (LRUCache_Release s handle, held(handle := held handle - 1))
      else None)"
| "step (OpErase key hash) (s, held) = Some (LRUCache_Erase s key hash, held)"

fun run :: "Op list \<Rightarrow> Client \<Rightarrow> Client option" where
  "run [] c = Some c"
| "run (op # ops) c = (case step op c of None \<Rightarrow> None | Some c' \<Rightarrow> run ops c')"

definition Client_new :: "64 word \<Rightarrow> Client" where
  "Client_new capacity = (LRUCache_new capacity, \<lambda>e. 0)"

subsection \<open>The invariant of a shard and its callers\<close>

text \<open>
  The entries of the table, and the well-formedness of the table over a heap: the array
  has \<open>m_length\<close> buckets, \<open>m_elems\<close> counts the entries, no entry is linked twice,
  every entry is allocated and sits in the bucket of its hash, and no two entries have
  the same hash and key.
\<close>

definition entries :: "HandleTable \<Rightarrow> addr set" where
  "entries t = set (concat (m_list t))"

definition ident :: "heap \<Rightarrow> addr \<Rightarrow> 32 word \<times> Slice" where
  "ident hp e = (h_hash (the (hp e)), h_key (the (hp e)))"

definition table_ok :: "heap \<Rightarrow> HandleTable \<Rightarrow> bool" where
  "table_ok hp t =
     (length (m_list t) = m_length t \<and> 0 < m_length t
      \<and> m_elems t = length (concat (m_list t))
      \<and> distinct (concat (m_list t))
      \<and> (\<forall>i<m_length t. \<forall>e\<in>set (m_list t ! i).
            e \<in> dom hp \<and> unat (fst (ident hp e)) AND (m_length t - 1) = i)
      \<and> inj_on (ident hp) (entries t))"

text \<open>
  The invariant. The LRU list and the table hold the same entries; every address in use
  was handed out by the allocator; an allocated entry has as many references as there are
  holders (the cache if it is on the LRU list, the handles of the callers, and \<open>extra\<close>,
  the references that an operation under way is about to drop), at least one and fewer
  than 2^32; nobody holds an entry that is not allocated; the usage and the consumption
  of the tracker are the sum of the charges of the allocated entries; and the deleter has
  run once for every entry freed and for no other.
\<close>

definition live_charge :: "LRUCache \<Rightarrow> 64 word" where
  "live_charge s = (\<Sum>e\<in>dom (heap s). h_charge (the (heap s e)))"

definition cached_charge :: "LRUCache \<Rightarrow> 64 word" where
  "cached_charge s = sum_list (map (\<lambda>e. h_charge (the (heap s e))) (m_lru s))"

definition refs_ok :: "LRUCache \<Rightarrow> (addr \<Rightarrow> nat) \<Rightarrow> (addr \<Rightarrow> nat) \<Rightarrow> bool" where
  "refs_ok s held extra =
     (\<forall>e h. heap s e = Some h \<longrightarrow>
        unat (h_refs h) = (if e \<in> set (m_lru s) then 1 else 0) + held e + extra e
        \<and> 0 < unat (h_refs h))"

definition holders_live :: "LRUCache \<Rightarrow> (addr \<Rightarrow> nat) \<Rightarrow> (addr \<Rightarrow> nat) \<Rightarrow> bool" where
  "holders_live s held extra = (\<forall>e. e \<notin> dom (heap s) \<longrightarrow> held e = 0 \<and> extra e = 0)"

definition deleted_ok :: "LRUCache \<Rightarrow> bool" where
  "deleted_ok s =
     (distinct (map fst (deleted s))
      \<and> fst ` set (deleted s) = {..<next_free s} - dom (heap s))"

definition cache_inv :: "LRUCache \<Rightarrow> (addr \<Rightarrow> nat) \<Rightarrow> (addr \<Rightarrow> nat) \<Rightarrow> bool" where
  "cache_inv s held extra =
     (table_ok (heap s) (m_table s)
      \<and> distinct (m_lru s) \<and> set (m_lru s) = entries (m_table s)
      \<and> dom (heap s) \<subseteq> {..<next_free s}
      \<and> refs_ok s held extra
      \<and> holders_live s held extra
      \<and> m_usage s = live_charge s \<and> consumption s = live_charge s
      \<and> deleted_ok s)"

definition client_inv :: "Client \<Rightarrow> bool" where
  "client_inv c = cache_inv (fst c) (snd c) (\<lambda>e. 0)"

text \<open>
  Three further notions: the charges of the allocated entries added up in the natural
  numbers, where the \<open>size_t\<close> sum wraps; the charges of the allocated entries that are
  not on the LRU list (entries replaced, erased or evicted that a caller still holds); and
  a heap all of whose entries are entries of another heap with the same fields, the
  reference count apart.
\<close>

definition live_total :: "LRUCache \<Rightarrow> nat" where
  "live_total s = (\<Sum>e\<in>dom (heap s). unat (h_charge (the (heap s e))))"

definition departed_charge :: "LRUCache \<Rightarrow> 64 word" where
  "departed_charge s = (\<Sum>e\<in>dom (heap s) - set (m_lru s). h_charge (the (heap s e)))"

definition heap_le :: "heap \<Rightarrow> heap \<Rightarrow> bool" where
  "heap_le hp' hp =
     (\<forall>a h'. hp' a = Some h' \<longrightarrow> (\<exists>h. hp a = Some h \<and> h' = h\<lparr>h_refs := h_refs h'\<rparr>))"


section \<open>Concrete row sets, iterators and blocks\<close>

text \<open>
  The collaborators of the examples: the key of a row is the row itself, the arena never
  fails, the footprint is 4 MiB, projection is the identity and an update replaces the
  row. The throttle flag is the parameter.
\<close>

definition example_env :: "32 word \<Rightarrow> Env" where
  "example_env mb =
     \<lparr>EncodeComparableKey = (\<lambda>row. row),
      CopyRow = (\<lambda>row. OK),
      memory_footprint = (\<lambda>tree. 4 * 1024 * 1024),
      FLAGS_memrowset_throttle_mb = mb,
      projector_Init = OK,
      delta_projector_Init = OK,
      ProjectRowForRead = (\<lambda>row a. Inr (row, a)),
      ApplyUpdate = (\<lambda>u row a. Inr (u, a))\<rparr>"

definition example_row :: "Timestamp \<Rightarrow> Row \<Rightarrow> Slice \<times> MRSRow" where
  "example_row ts key = (key, \<lparr>insertion_timestamp = ts, redo_head = [], row_slice = key\<rparr>)"

definition ghost_row :: "Slice \<times> MRSRow" where
  "ghost_row = (''k'', \<lparr>insertion_timestamp = 1,
                          redo_head = [\<lparr>m_timestamp = 2, m_changelist = kDelete\<rparr>],
                          row_slice = ''k''\<rparr>)"

definition example_mrs :: "MSBTree \<Rightarrow> MemRowSet" where
  "example_mrs tree =
     \<lparr>m_id = 1, m_tree = tree, m_anchorer = None, m_debug_insert_count = 0,
      m_debug_update_count = 0, m_has_logged_throttling = False, m_warnings = [],
      m_slept_us = []\<rparr>"

definition example_iter :: "MSBTree \<Rightarrow> (Timestamp \<Rightarrow> bool) \<Rightarrow> Iterator" where
  "example_iter tree snap = NewIterator (example_mrs tree) snap"

text \<open>A block of \<open>n\<close> row slots not yet in use, and the same block made ready for a fetch.\<close>

definition example_block :: "nat \<Rightarrow> RowBlock" where
  "example_block n =
     \<lparr>row_capacity = n, nrows = 0, rows = replicate n [], selection_vector = [],
      arena = Some []\<rparr>"

definition ready_block :: "nat \<Rightarrow> RowBlock" where
  "ready_block n =
     \<lparr>row_capacity = n, nrows = n, rows = replicate n [], selection_vector = replicate n True,
      arena = Some []\<rparr>"

text \<open>An iterator on a single row that is not committed in the snapshot and lies on the upper bound.\<close>

definition uncommitted_iter :: Iterator where
  "uncommitted_iter =
     (example_iter [example_row 9 ''d''] (\<lambda>t. t < 5))
       \<lparr>m_upper_bound := Some ''d'', m_state := kScanning\<rparr>"

text \<open>
  Scenario 4 of the spec: the keys d, b, a, c are inserted one after the other, and the
  row set is scanned with the lower bound b and the upper bound d.
\<close>

fun Insert_all :: "Env \<Rightarrow> MemRowSet \<Rightarrow> (Timestamp \<times> Row \<times> OpId) list \<Rightarrow> MemRowSet option" where
  "Insert_all env s [] = Some s"
| "Insert_all env s ((timestamp, row, op_id) # rest) =
     (case Insert env s timestamp row op_id of
        Some (OK, s') \<Rightarrow> Insert_all env s' rest
      | _ \<Rightarrow> None)"

definition scan_first_block ::
  "Env \<Rightarrow> MemRowSet \<Rightarrow> (Timestamp \<Rightarrow> bool) \<Rightarrow> ScanSpec option \<Rightarrow> nat
     \<Rightarrow> (Status \<times> ScanState \<times> Row list) option" where
  "scan_first_block env s snap spec cap =
     (case Init env (NewIterator s snap) spec of
        (st, it1) \<Rightarrow>
          if st \<noteq> OK then Some (st, m_state it1, [])
          else case NextBlock env it1 (example_block cap) of
                 None \<Rightarrow> None
               | Some (st2, it2, dst2) \<Rightarrow> Some (st2, m_state it2, selected_rows dst2))"

definition scenario_inserts :: "(Timestamp \<times> Row \<times> OpId) list" where
  "scenario_inserts = [(1, ''d'', 1), (2, ''b'', 2), (3, ''a'', 3), (4, ''c'', 4)]"

definition scenario_mrs :: MemRowSet where
  "scenario_mrs =
     (example_mrs [example_row 3 ''a'', example_row 2 ''b'', example_row 4 ''c'', example_row 1 ''d''])
       \<lparr>m_anchorer := Some 1, m_debug_insert_count := 4\<rparr>"

definition scenario_spec :: ScanSpec where
  "scenario_spec = \<lparr>encoded_ranges = [\<lparr>lower_bound = Some ''b'', upper_bound = Some ''d''\<rparr>]\<rparr>"

definition scenario_iter :: Iterator where
  "scenario_iter =
     (NewIterator scenario_mrs (\<lambda>t. True))
       \<lparr>m_iter := 1, m_upper_bound := Some ''d'', m_state := kScanning\<rparr>"


section \<open>Concrete shards and caller histories\<close>

text \<open>
  A shard of capacity 5 after the insert of the key A with hash 7, value 100, charge 10 and
  deleter 1: the handle returned and the shard.
\<close>

definition insert_A :: "addr \<times> LRUCache" where
  "insert_A = LRUCache_Insert (LRUCache_new 5) ''A'' 7 100 10 1"

text \<open>
  Two inserts of the key A, of charge 1 each, into a shard of capacity 100, the caller keeping
  both handles; \<open>replaced\<close> is the shard they leave.
\<close>

definition replace_ops :: "Op list" where
  "replace_ops = [OpInsert ''A'' 7 100 1 1, OpInsert ''A'' 7 101 1 1]"

definition replaced :: LRUCache where
  "replaced =
     \<lparr>m_capacity = 100, m_usage = 2, m_lru = [1],
      m_table = \<lparr>m_length = 4, m_elems = 1, m_list = [[], [], [], [1]]\<rparr>,
      heap = [0 \<mapsto> \<lparr>h_value = 100, h_deleter = 1, h_charge = 1, h_key = ''A'',
                      h_refs = 1, h_hash = 7\<rparr>,
              1 \<mapsto> \<lparr>h_value = 101, h_deleter = 1, h_charge = 1, h_key = ''A'',
                      h_refs = 2, h_hash = 7\<rparr>],
      next_free = 2, consumption = 2, deleted = []\<rparr>"

text \<open>
  The insert of an entry larger than the shard, then the release of its handle;
  \<open>released\<close> is the shard they leave.
\<close>

definition release_ops :: "Op list" where
  "release_ops = [OpInsert ''A'' 7 100 10 1, OpRelease 0]"

definition released :: LRUCache where
  "released =
     \<lparr>m_capacity = 5, m_usage = 0, m_lru = [],
      m_table = \<lparr>m_length = 4, m_elems = 0, m_list = [[], [], [], []]\<rparr>,
      heap = Map.empty, next_free = 1, consumption = 0, deleted = [(0, 1, ''A'', 100)]\<rparr>"

text \<open>
  An entry of charge \<open>2^64 - 6\<close>, then an entry of charge 6 under another key, into a shard
  of capacity 5, the caller keeping both handles; \<open>wrapped\<close> is the shard they leave.
\<close>

definition wrap_ops :: "Op list" where
  "wrap_ops = [OpInsert ''A'' 7 100 18446744073709551610 1, OpInsert ''B'' 8 200 6 1]"

definition wrapped :: LRUCache where
  "wrapped =
     \<lparr>m_capacity = 5, m_usage = 0, m_lru = [1],
      m_table = \<lparr>m_length = 4, m_elems = 1, m_list = [[1], [], [], []]\<rparr>,
      heap = [0 \<mapsto> \<lparr>h_value = 100, h_deleter = 1, h_charge = 18446744073709551610, h_key = ''A'',
                      h_refs = 1, h_hash = 7\<rparr>,
              1 \<mapsto> \<lparr>h_value = 200, h_deleter = 1, h_charge = 6, h_key = ''B'',
                      h_refs = 2, h_hash = 8\<rparr>],
      next_free = 2, consumption = 0, deleted = []\<rparr>"


section \<open>Properties of the row set\<close>

subsection \<open>Auxiliary facts\<close>

lemma Prepare_set_current_value:
  "Prepare tree key = Some row \<Longrightarrow> Prepare (set_current_value key v tree) key = Some v"
  unfolding Prepare_def set_current_value_def
  by (induction tree) (auto split: if_splits)

lemma m_tree_SlowMutators [simp]: "m_tree (SlowMutators env s) = m_tree s"
  by (simp add: SlowMutators_def word_sless_alt Let_def)

lemma m_tree_AnchorIfMinimum [simp]: "m_tree (AnchorIfMinimum op_id s) = m_tree s"
  by (simp add: AnchorIfMinimum_def split: option.splits)

lemma m_debug_update_count_AnchorIfMinimum [simp]:
  "m_debug_update_count (AnchorIfMinimum op_id s) = m_debug_update_count s"
  by (simp add: AnchorIfMinimum_def split: option.splits)

lemma m_anchorer_SlowMutators [simp]: "m_anchorer (SlowMutators env s) = m_anchorer s"
  by (simp add: SlowMutators_def word_sless_alt Let_def)

text \<open>
  The throttle at the edge of the 32-bit product: with a footprint of 4 MiB, a flag of 4 MB
  or of 2047 MB does not throttle, and a flag of 2048 MB, whose product wraps to
  \<open>- 2^31\<close>, sleeps 4104 microseconds.
\<close>

lemma SlowMutators_flag_wraps:
  "m_slept_us (SlowMutators (example_env 4) (example_mrs [])) = []
   \<and> m_slept_us (SlowMutators (example_env 2047) (example_mrs [])) = []
   \<and> m_slept_us (SlowMutators (example_env 2048) (example_mrs [])) = [4104]"
  by (simp add: SlowMutators_def word_sless_alt Let_def example_env_def example_mrs_def)

lemma m_anchorer_AnchorIfMinimum:
  "\<exists>a. m_anchorer (AnchorIfMinimum op_id s) = Some a \<and> a \<le> op_id
        \<and> (case m_anchorer s of None \<Rightarrow> a = op_id | Some b \<Rightarrow> a = min b op_id)"
  by (auto simp: AnchorIfMinimum_def min_def split: option.splits)


subsection \<open>Insert\<close>

text \<open>
  Claim C5. \<open>MemRowSet::Insert\<close> returns AlreadyPresent if and only if the key already
  exists in the index and the replay of its mutation chain ends in a live (non-ghost)
  state; in that case no row body is inserted and no mutation is appended: the row set is
  returned as it was. The arena copy of the collaborators is taken not to report
  AlreadyPresent itself.
\<close>

theorem Insert_AlreadyPresent_iff:
  assumes "\<forall>msg. CopyRow env row \<noteq> AlreadyPresent msg"
  shows "((\<exists>msg s'. Insert env s timestamp row op_id = Some (AlreadyPresent msg, s'))
            = (\<exists>ms_row. Prepare (m_tree s) (EncodeComparableKey env row) = Some ms_row
                  \<and> IsGhost ms_row = Some False))
       \<and> (\<forall>msg s'. Insert env s timestamp row op_id = Some (AlreadyPresent msg, s') \<longrightarrow> s' = s)"
  using assms
  by (auto simp: Insert_def Reinsert_def Let_def split: option.splits bool.splits if_splits)

theorem Insert_AlreadyPresent_iff_witness:
  "(\<forall>msg. CopyRow (example_env 1) ''k'' \<noteq> AlreadyPresent msg)
   \<and> Insert (example_env 1) (example_mrs [example_row 1 ''k'']) 2 ''k'' 7
        = Some (AlreadyPresent ''entry already present in memrowset'', example_mrs [example_row 1 ''k''])
   \<and> Insert (example_env 1) (example_mrs [ghost_row]) 2 ''k'' 7
        \<noteq> Some (AlreadyPresent ''entry already present in memrowset'', example_mrs [ghost_row])"
  using Insert_AlreadyPresent_iff [of "example_env 1" "''k''" "example_mrs [example_row 1 ''k'']" 2 7]
  by (simp add: example_env_def example_mrs_def example_row_def ghost_row_def Insert_def Reinsert_def
                Prepare_def IsGhost_def Let_def)


text \<open>
  Claim C2. Every call of \<open>MemRowSet::Insert\<close> that returns OK registers the operation
  identifier with the anchorer and runs the throttle check. The path through
  \<open>Reinsert\<close> returns before either: on a row set that holds the deleted key k, with
  the throttle set to 1 MB under a footprint of 4 MiB, the insert of k returns OK with the
  REINSERT appended, the anchor still nil and no sleep, while the insert of the fresh key j
  into the same row set anchors the operation 7 and sleeps 6 microseconds.
\<close>

theorem Insert_reinsert_no_anchor:
  "Insert (example_env 1) (example_mrs [ghost_row]) 3 ''k'' 7
     = Some (OK, example_mrs [(''k'', \<lparr>insertion_timestamp = 1,
                 redo_head = [\<lparr>m_timestamp = 2, m_changelist = kDelete\<rparr>,
                              \<lparr>m_timestamp = 3, m_changelist = kReinsert ''k''\<rparr>],
                 row_slice = ''k''\<rparr>)])
   \<and> m_anchorer (example_mrs [(''k'', \<lparr>insertion_timestamp = 1,
                 redo_head = [\<lparr>m_timestamp = 2, m_changelist = kDelete\<rparr>,
                              \<lparr>m_timestamp = 3, m_changelist = kReinsert ''k''\<rparr>],
                 row_slice = ''k''\<rparr>)]) = None
   \<and> m_slept_us (example_mrs [(''k'', \<lparr>insertion_timestamp = 1,
                 redo_head = [\<lparr>m_timestamp = 2, m_changelist = kDelete\<rparr>,
                              \<lparr>m_timestamp = 3, m_changelist = kReinsert ''k''\<rparr>],
                 row_slice = ''k''\<rparr>)]) = []
   \<and> Insert (example_env 1) (example_mrs [ghost_row]) 3 ''j'' 7
     = Some (OK, (example_mrs [example_row 3 ''j'', ghost_row])
                   \<lparr>m_anchorer := Some 7, m_debug_insert_count := 1,
                    m_has_logged_throttling := True,
                    m_warnings := [''Throttling memrowset insert rate''],
                    m_slept_us := [6]\<rparr>)"
  by (simp add: example_env_def example_mrs_def example_row_def ghost_row_def Insert_def Reinsert_def
                Prepare_def IsGhost_def set_current_value_def AnchorIfMinimum_def SlowMutators_def word_sless_alt Let_def)


subsection \<open>MutateRow\<close>

text \<open>
  Claim C6. \<open>MemRowSet::MutateRow\<close> returns NotFound exactly when the key is absent from
  the index or its mutation chain ends in a ghost state, and then leaves the row set, the
  statistics and the anchor unchanged; otherwise it returns OK, has appended a mutation
  node carrying the change list to the chain of the row, has recorded the id of the row
  set in the operation result, has incremented \<open>mrs_consulted\<close>, has anchored the
  operation identifier and has run the throttle check.
\<close>

theorem MutateRow_NotFound_iff:
  assumes "MutateRow env s timestamp probe delta op_id stats result = Some (st, s', stats', result')"
  shows "((\<exists>msg. st = NotFound msg)
            = (Prepare (m_tree s) probe = None
               \<or> (\<exists>row. Prepare (m_tree s) probe = Some row \<and> IsGhost row = Some True)))
       \<and> ((\<exists>msg. st = NotFound msg) \<longrightarrow> s' = s \<and> stats' = stats \<and> result' = result)
       \<and> ((\<forall>msg. st \<noteq> NotFound msg) \<longrightarrow>
            st = OK
            \<and> (\<exists>row. Prepare (m_tree s) probe = Some row \<and> IsGhost row = Some False
                 \<and> Prepare (m_tree s') probe
                      = Some (row\<lparr>redo_head := redo_head row
                                       @ [\<lparr>m_timestamp = timestamp, m_changelist = delta\<rparr>]\<rparr>)
                 \<and> s' = SlowMutators env
                          ((AnchorIfMinimum op_id
                             (s\<lparr>m_tree := set_current_value probe
                                   (row\<lparr>redo_head := redo_head row
                                          @ [\<lparr>m_timestamp = timestamp, m_changelist = delta\<rparr>]\<rparr>)
                                   (m_tree s)\<rparr>))
                           \<lparr>m_debug_update_count := m_debug_update_count s + 1\<rparr>))
            \<and> mutated_stores result' = mutated_stores result @ [\<lparr>mrs_id = Some (m_id s)\<rparr>]
            \<and> mrs_consulted stats' = mrs_consulted stats + 1
            \<and> (\<exists>a. m_anchorer s' = Some a \<and> a \<le> op_id))"
proof (cases "Prepare (m_tree s) probe")
  case None
  with assms show ?thesis by (auto simp: MutateRow_def)
next
  case (Some row)
  show ?thesis
  proof (cases "IsGhost row")
    case None
    with Some assms show ?thesis by (simp add: MutateRow_def)
  next
    case ghost: (Some g)
    show ?thesis
    proof (cases g)
      case True
      with Some ghost assms show ?thesis by (auto simp: MutateRow_def)
    next
      case False
      have anchored: "\<exists>a. m_anchorer (AnchorIfMinimum op_id t) = Some a \<and> a \<le> op_id" for t
        using m_anchorer_AnchorIfMinimum [of op_id t] by blast
      from False Some ghost assms show ?thesis
        by (auto simp: MutateRow_def Let_def Prepare_set_current_value anchored)
    qed
  qed
qed

theorem MutateRow_NotFound_iff_witness:
  "MutateRow (example_env 1) (example_mrs [example_row 1 ''k'']) 2 ''k'' kDelete 7
       \<lparr>mrs_consulted = 0\<rparr> \<lparr>mutated_stores = []\<rparr>
     = Some (OK,
             (example_mrs [ghost_row])
                \<lparr>m_anchorer := Some 7, m_debug_update_count := 1, m_has_logged_throttling := True,
                 m_warnings := [''Throttling memrowset insert rate''], m_slept_us := [6]\<rparr>,
             \<lparr>mrs_consulted = 1\<rparr>, \<lparr>mutated_stores = [\<lparr>mrs_id = Some 1\<rparr>]\<rparr>)
   \<and> MutateRow (example_env 1) (example_mrs [ghost_row]) 3 ''k'' (kUpdate ''v'') 7
       \<lparr>mrs_consulted = 0\<rparr> \<lparr>mutated_stores = []\<rparr>
     = Some (NotFound ''not in memrowset (ghost)'', example_mrs [ghost_row],
             \<lparr>mrs_consulted = 0\<rparr>, \<lparr>mutated_stores = []\<rparr>)"
proof -
  have run: "MutateRow (example_env 1) (example_mrs [ghost_row]) 3 ''k'' (kUpdate ''v'') 7
       \<lparr>mrs_consulted = 0\<rparr> \<lparr>mutated_stores = []\<rparr>
     = Some (NotFound ''not in memrowset (ghost)'', example_mrs [ghost_row],
             \<lparr>mrs_consulted = 0\<rparr>, \<lparr>mutated_stores = []\<rparr>)"
    by (simp add: MutateRow_def example_mrs_def ghost_row_def Prepare_def IsGhost_def)
  have "\<exists>msg. NotFound ''not in memrowset (ghost)'' = NotFound msg" by blast
  with MutateRow_NotFound_iff [OF run] show ?thesis
    by (simp add: example_env_def example_mrs_def example_row_def ghost_row_def MutateRow_def
                  Prepare_def IsGhost_def set_current_value_def AnchorIfMinimum_def
                  SlowMutators_def word_sless_alt Let_def)
qed


subsection \<open>SeekAtOrAfter\<close>

text \<open>
  Claim C9. \<open>MemRowSet::Iterator::SeekAtOrAfter\<close> with an empty key bypasses the key
  encoding (the index is sought with the empty slice) and always returns OK, even when the
  seek of the index finds no entry; with a non-empty key it returns NotFound exactly when
  the seek of the index with the encoded key fails.
\<close>

theorem SeekAtOrAfter_empty_key:
  "SeekAtOrAfter env it [] =
     (OK, fst (snd (iter_SeekAtOrAfter (m_tree (m_memrowset it)) [])),
      it\<lparr>m_iter := fst (iter_SeekAtOrAfter (m_tree (m_memrowset it)) []), tmp_buf := []\<rparr>)
   \<and> (key \<noteq> [] \<longrightarrow>
        fst (SeekAtOrAfter env it key) =
          (if snd (snd (iter_SeekAtOrAfter (m_tree (m_memrowset it)) (EncodeComparableKey env key)))
           then OK else NotFound ''no match in memrowset''))"
  by (simp add: SeekAtOrAfter_def Let_def case_prod_beta)

theorem SeekAtOrAfter_empty_key_witness:
  "SeekAtOrAfter (example_env 1) (example_iter [] (\<lambda>t. True)) [] =
     (OK, False, example_iter [] (\<lambda>t. True))
   \<and> fst (SeekAtOrAfter (example_env 1) (example_iter [] (\<lambda>t. True)) ''a'') = NotFound ''no match in memrowset''
   \<and> fst (SeekAtOrAfter (example_env 1) (example_iter [example_row 1 ''b''] (\<lambda>t. True)) ''a'') = OK"
  using SeekAtOrAfter_empty_key [of "example_env 1" "example_iter [] (\<lambda>t. True)" "''a''"]
        SeekAtOrAfter_empty_key [of "example_env 1" "example_iter [example_row 1 ''b''] (\<lambda>t. True)" "''a''"]
  by (simp add: example_env_def example_iter_def NewIterator_def example_mrs_def example_row_def iter_SeekAtOrAfter_def)


subsection \<open>NextBlock and FetchRows\<close>

text \<open>
  Claim C10. If \<open>NextBlock\<close> is called in the scanning state with a valid index iterator
  and a destination block whose row capacity is 0, it returns OK and the block and the
  iterator are unchanged: no resize, no arena reset, no selection bit set, no advance.
\<close>

theorem NextBlock_zero_capacity:
  "m_state it = kScanning \<Longrightarrow> iter_IsValid (m_tree (m_memrowset it)) (m_iter it) \<Longrightarrow>
   row_capacity dst = 0 \<Longrightarrow> NextBlock env it dst = Some (OK, it, dst)"
  by (simp add: NextBlock_def)

theorem NextBlock_zero_capacity_witness:
  "NextBlock (example_env 1) ((example_iter [example_row 1 ''a''] (\<lambda>t. True))\<lparr>m_state := kScanning\<rparr>) (example_block 0)
     = Some (OK, (example_iter [example_row 1 ''a''] (\<lambda>t. True))\<lparr>m_state := kScanning\<rparr>, example_block 0)"
  by (rule NextBlock_zero_capacity)
     (simp_all add: example_iter_def NewIterator_def example_mrs_def example_block_def iter_IsValid_def)


text \<open>
  Claim C7. While rows are fetched, a row whose insertion timestamp is not committed in
  the snapshot is marked unselected and nothing else of the block changes (no projection,
  no replay of its mutations), and the loop goes on to the next entry whatever the key is:
  the test against the upper bound is made for committed rows only, where a key out of
  bounds ends the scan.
\<close>

theorem FetchRows_uncommitted_row:
  assumes "iter_IsValid (m_tree (m_memrowset it)) (m_iter it)"
    and "m_tree (m_memrowset it) ! m_iter it = (k, row)"
  shows "(\<not> m_mvcc_snap it (insertion_timestamp row) \<longrightarrow>
            FetchRows_body env it dst fetched k row = Continue (SetRowUnselected fetched dst)
            \<and> rows (SetRowUnselected fetched dst) = rows dst
            \<and> arena (SetRowUnselected fetched dst) = arena dst
            \<and> (fetched < length (selection_vector dst) \<longrightarrow>
                   \<not> selection_vector (SetRowUnselected fetched dst) ! fetched)
            \<and> FetchRows_loop env it dst fetched =
                 (if Suc (m_iter it) < length (m_tree (m_memrowset it)) \<and> fetched + 1 < nrows dst
                  then FetchRows_loop env (it\<lparr>m_iter := Suc (m_iter it)\<rparr>)
                         (SetRowUnselected fetched dst) (fetched + 1)
                  else Some (OK, it\<lparr>m_iter := Suc (m_iter it)\<rparr>,
                             SetRowUnselected fetched dst, fetched + 1)))
       \<and> (m_mvcc_snap it (insertion_timestamp row) \<and> has_upper_bound it \<and> out_of_bounds it k \<longrightarrow>
            FetchRows_loop env it dst fetched = Some (OK, it\<lparr>m_state := kFinished\<rparr>, dst, fetched))"
  using assms
  by (subst (1 2) FetchRows_loop.simps)
     (simp add: FetchRows_body_def SetRowUnselected_def iter_Next_def)

theorem FetchRows_uncommitted_row_witness:
  "iter_IsValid (m_tree (m_memrowset uncommitted_iter)) (m_iter uncommitted_iter)
   \<and> m_tree (m_memrowset uncommitted_iter) ! m_iter uncommitted_iter = example_row 9 ''d''
   \<and> \<not> m_mvcc_snap uncommitted_iter (insertion_timestamp (snd (example_row 9 ''d'')))
   \<and> out_of_bounds uncommitted_iter ''d''
   \<and> FetchRows_loop (example_env 1) uncommitted_iter (ready_block 2) 0
       = Some (OK, uncommitted_iter\<lparr>m_iter := 1\<rparr>,
               (ready_block 2)\<lparr>selection_vector := [False, True]\<rparr>, 1)"
proof -
  have valid: "iter_IsValid (m_tree (m_memrowset uncommitted_iter)) (m_iter uncommitted_iter)"
    by (simp add: uncommitted_iter_def example_iter_def NewIterator_def example_mrs_def iter_IsValid_def)
  have entry: "m_tree (m_memrowset uncommitted_iter) ! m_iter uncommitted_iter
                 = (''d'', snd (example_row 9 ''d''))"
    by (simp add: uncommitted_iter_def example_iter_def NewIterator_def example_mrs_def example_row_def)
  from FetchRows_uncommitted_row [OF valid entry, of "example_env 1" "ready_block 2" 0] valid entry
  show ?thesis
    by (simp add: uncommitted_iter_def example_iter_def NewIterator_def example_mrs_def example_row_def
                  ready_block_def SetRowUnselected_def out_of_bounds_def Slice_compare_def
                  numeral_2_eq_2 iter_Next_def)
qed


subsection \<open>Pushed key ranges\<close>

lemma takeWhile_short_iff:
  "(length (takeWhile P xs) < length xs) = (\<exists>x\<in>set xs. \<not> P x)"
  by (induction xs) simp_all

lemma seek_found_iff:
  "snd (snd (iter_SeekAtOrAfter tree key)) = (\<exists>e\<in>set tree. key \<le> fst e)"
  by (simp add: iter_SeekAtOrAfter_def Let_def takeWhile_short_iff case_prod_beta not_less)

lemma seek_found_mono:
  assumes "snd (snd (iter_SeekAtOrAfter tree l))" and "l' \<le> l"
  shows "snd (snd (iter_SeekAtOrAfter tree l'))"
proof -
  from assms(1) obtain e where "e \<in> set tree" "l \<le> fst e"
    unfolding seek_found_iff by blast
  with assms(2) have "e \<in> set tree" "l' \<le> fst e"
    by (simp_all add: order_trans [of l' l])
  then show ?thesis unfolding seek_found_iff by blast
qed

lemma seek_not_found_pos:
  "\<not> snd (snd (iter_SeekAtOrAfter tree l)) \<Longrightarrow> fst (iter_SeekAtOrAfter tree l) = length tree"
  using length_takeWhile_le [of "\<lambda>(k, v). k < l" tree]
  by (simp add: iter_SeekAtOrAfter_def Let_def)

lemma Init_lower_Inr:
  assumes "Init_lower it mlb rng = Inr (it', mlb')"
  shows "m_tree (m_memrowset it') = m_tree (m_memrowset it)"
    and "m_upper_bound it' = m_upper_bound it"
    and "m_state it' = m_state it"
    and "mlb' = (case lower_bound rng of None \<Rightarrow> mlb
                 | Some lb \<Rightarrow> (case mlb of None \<Rightarrow> Some lb | Some m \<Rightarrow> Some (max m lb)))"
    and "m_iter it' = (case lower_bound rng of None \<Rightarrow> m_iter it
                 | Some lb \<Rightarrow> if mlb = None \<or> the mlb < lb
                     then fst (iter_SeekAtOrAfter (m_tree (m_memrowset it)) lb) else m_iter it)"
    and "lower_bound rng = Some lb \<Longrightarrow> mlb = None \<or> the mlb < lb
           \<Longrightarrow> snd (snd (iter_SeekAtOrAfter (m_tree (m_memrowset it)) lb))"
  using assms
  by (auto simp: Init_lower_def Slice_compare_def max_def split: option.splits prod.splits if_splits)

lemma Init_lower_Inl:
  assumes "Init_lower it mlb rng = Inl it'"
  shows "\<exists>lb. lower_bound rng = Some lb \<and> (mlb = None \<or> the mlb < lb)
            \<and> \<not> snd (snd (iter_SeekAtOrAfter (m_tree (m_memrowset it)) lb))
            \<and> it' = it\<lparr>m_iter := fst (iter_SeekAtOrAfter (m_tree (m_memrowset it)) lb), m_state := kFinished\<rparr>"
  using assms
  by (auto simp: Init_lower_def Slice_compare_def split: option.splits prod.splits if_splits)

lemma Init_upper_tree: "m_tree (m_memrowset (Init_upper it rng)) = m_tree (m_memrowset it)"
  by (simp add: Init_upper_def split: option.splits)

lemma Init_upper_iter: "m_iter (Init_upper it rng) = m_iter it"
  by (simp add: Init_upper_def split: option.splits)

lemma Init_upper_state: "m_state (Init_upper it rng) = m_state it"
  by (simp add: Init_upper_def split: option.splits)

lemma Init_upper_bound:
  "m_upper_bound (Init_upper it rng) =
     (case upper_bound rng of None \<Rightarrow> m_upper_bound it
      | Some ub \<Rightarrow> (case m_upper_bound it of None \<Rightarrow> Some ub | Some u \<Rightarrow> Some (min u ub)))"
proof (cases "upper_bound rng")
  case None
  then show ?thesis by (simp add: Init_upper_def)
next
  case ub: (Some ub)
  show ?thesis
  proof (cases "m_upper_bound it")
    case None
    with ub show ?thesis by (simp add: Init_upper_def has_upper_bound_def)
  next
    case (Some u)
    have "min u ub = (if ub < u then ub else u)" by (simp add: min_def leD not_less)
    with ub Some show ?thesis
      by (simp add: Init_upper_def has_upper_bound_def Slice_compare_def)
  qed
qed

lemma max_opt_Some: "max_opt (Some m) ls = Some (fold max ls m)"
  by (induction ls arbitrary: m) (simp_all add: max.commute)

lemma min_opt_Some: "min_opt (Some m) us = Some (fold min us m)"
  by (induction us arbitrary: m) (simp_all add: min.commute)

lemma max_opt_None: "max_opt None ls = (if ls = [] then None else Some (Max (set ls)))"
  by (cases ls) (simp_all add: max_opt_Some Max.set_eq_fold del: set_simps)

lemma min_opt_None: "min_opt None us = (if us = [] then None else Some (Min (set us)))"
  by (cases us) (simp_all add: min_opt_Some Min.set_eq_fold del: set_simps)

lemma lower_bounds_Cons:
  "lower_bounds (rng # rest) =
     (case lower_bound rng of None \<Rightarrow> lower_bounds rest | Some lb \<Rightarrow> lb # lower_bounds rest)"
  by (simp add: lower_bounds_def map_filter_simps split: option.splits)

lemma upper_bounds_Cons:
  "upper_bounds (rng # rest) =
     (case upper_bound rng of None \<Rightarrow> upper_bounds rest | Some ub \<Rightarrow> ub # upper_bounds rest)"
  by (simp add: upper_bounds_def map_filter_simps split: option.splits)

lemma max_opt_step:
  "max_opt (case lower_bound rng of None \<Rightarrow> mlb
            | Some lb \<Rightarrow> (case mlb of None \<Rightarrow> Some lb | Some m \<Rightarrow> Some (max m lb)))
           (lower_bounds rest)
     = max_opt mlb (lower_bounds (rng # rest))"
  by (cases "lower_bound rng"; cases mlb; simp add: lower_bounds_Cons)

lemma min_opt_step:
  "min_opt (case upper_bound rng of None \<Rightarrow> u
            | Some ub \<Rightarrow> (case u of None \<Rightarrow> Some ub | Some m \<Rightarrow> Some (min m ub)))
           (upper_bounds rest)
     = min_opt u (upper_bounds (rng # rest))"
  by (cases "upper_bound rng"; cases u; simp add: upper_bounds_Cons)

lemma Init_lower_seeked:
  assumes low: "Init_lower it mlb rng = Inr (it1, mlb1)" and sk: "seeked it mlb"
  shows "seeked (Init_upper it1 rng) mlb1"
proof -
  note l = Init_lower_Inr [OF low]
  show ?thesis
  proof (cases "lower_bound rng")
    case None
    with l(1,4,5) sk show ?thesis
      by (simp add: seeked_def Init_upper_tree Init_upper_iter cong: option.case_cong)
  next
    case (Some lb)
    show ?thesis
    proof (cases "mlb = None \<or> the mlb < lb")
      case True
      then have "mlb1 = Some lb"
        using l(4) Some by (cases mlb) (auto simp: max_def leD)
      moreover have "m_iter it1 = fst (iter_SeekAtOrAfter (m_tree (m_memrowset it)) lb)"
        using l(5) Some True by simp
      moreover have "snd (snd (iter_SeekAtOrAfter (m_tree (m_memrowset it)) lb))"
        using l(6) Some True by simp
      ultimately show ?thesis
        using l(1) by (simp add: seeked_def Init_upper_tree Init_upper_iter)
    next
      case False
      then obtain m where m: "mlb = Some m" "\<not> m < lb" by auto
      then have "max m lb = m" by (simp add: max_def not_less leD)
      with m Some l(4) have "mlb1 = mlb" by simp
      moreover have "m_iter it1 = m_iter it"
        using l(5) Some False by simp
      ultimately show ?thesis
        using l(1) sk by (simp add: seeked_def Init_upper_tree Init_upper_iter cong: option.case_cong)
    qed
  qed
qed

lemma Init_ranges_Inr:
  assumes "Init_ranges it mlb rs = Inr (it', mlb')" and "seeked it mlb"
  shows "m_tree (m_memrowset it') = m_tree (m_memrowset it) \<and> m_state it' = m_state it
         \<and> mlb' = max_opt mlb (lower_bounds rs)
         \<and> m_upper_bound it' = min_opt (m_upper_bound it) (upper_bounds rs)
         \<and> seeked it' mlb' \<and> (mlb' = None \<longrightarrow> m_iter it' = m_iter it)"
  using assms
proof (induction rs arbitrary: it mlb)
  case Nil
  then show ?case by (simp add: lower_bounds_def upper_bounds_def map_filter_simps)
next
  case (Cons rng rest)
  from Cons.prems(1) obtain it1 mlb1 where
    low: "Init_lower it mlb rng = Inr (it1, mlb1)" and
    rest: "Init_ranges (Init_upper it1 rng) mlb1 rest = Inr (it', mlb')"
    by (auto split: sum.splits)
  note l = Init_lower_Inr [OF low]
  have sk: "seeked (Init_upper it1 rng) mlb1"
    by (rule Init_lower_seeked [OF low Cons.prems(2)])
  note ih = Cons.IH [OF rest sk]
  have t: "m_tree (m_memrowset it') = m_tree (m_memrowset it)"
    using ih l(1) by (simp add: Init_upper_tree)
  have st: "m_state it' = m_state it"
    using ih l(3) by (simp add: Init_upper_state)
  have mx: "mlb' = max_opt mlb (lower_bounds (rng # rest))"
    using ih l(4) max_opt_step [where rng = rng and mlb = mlb and rest = rest] by simp
  have ub: "m_upper_bound it' = min_opt (m_upper_bound it) (upper_bounds (rng # rest))"
    using ih min_opt_step [where rng = rng and u = "m_upper_bound it" and rest = rest]
    by (simp add: Init_upper_bound l(2) cong: option.case_cong)
  have none: "mlb' = None \<longrightarrow> m_iter it' = m_iter it"
  proof
    assume n: "mlb' = None"
    with ih have i: "m_iter it' = m_iter it1" by (simp add: Init_upper_iter)
    from n mx have "lower_bound rng = None"
      by (cases "lower_bound rng"; cases mlb) (simp_all add: lower_bounds_Cons max_opt_Some)
    with l(5) i show "m_iter it' = m_iter it" by simp
  qed
  have sk': "seeked it' mlb'"
    using ih by blast
  from t st mx ub none sk' show ?case by blast
qed

lemma Init_ranges_Inl:
  assumes "Init_ranges it mlb rs = Inl it'" and "seeked it mlb"
  shows "m_state it' = kFinished \<and> m_iter it' = length (m_tree (m_memrowset it))
         \<and> m_tree (m_memrowset it') = m_tree (m_memrowset it)
         \<and> (\<exists>lb\<in>set (lower_bounds rs). \<not> snd (snd (iter_SeekAtOrAfter (m_tree (m_memrowset it)) lb)))"
  using assms
proof (induction rs arbitrary: it mlb)
  case Nil
  then show ?case by simp
next
  case (Cons rng rest)
  show ?case
  proof (cases "Init_lower it mlb rng")
    case (Inl it0)
    with Cons.prems(1) have "it0 = it'" by simp
    with Init_lower_Inl [OF Inl] show ?thesis
      by (auto simp: lower_bounds_Cons seek_not_found_pos)
  next
    case (Inr p)
    then obtain it1 mlb1 where low: "Init_lower it mlb rng = Inr (it1, mlb1)"
      by (cases p) simp
    with Cons.prems(1) have rest: "Init_ranges (Init_upper it1 rng) mlb1 rest = Inl it'"
      by simp
    have sk: "seeked (Init_upper it1 rng) mlb1"
      by (rule Init_lower_seeked [OF low Cons.prems(2)])
    from Cons.IH [OF rest sk] Init_lower_Inr(1) [OF low] show ?thesis
      by (auto simp: Init_upper_tree lower_bounds_Cons split: option.splits)
  qed
qed

lemma out_of_bounds_iff:
  "out_of_bounds it k = (case m_upper_bound it of None \<Rightarrow> False | Some ub \<Rightarrow> ub \<le> k)"
  by (cases "m_upper_bound it") (simp_all add: out_of_bounds_def Slice_compare_def not_less le_less)

lemma FetchRows_body_Continue:
  assumes "FetchRows_body env it dst fetched k row = Continue dst'"
  shows "nrows dst' = nrows dst"
    and "length (selection_vector dst') = length (selection_vector dst)"
    and "i \<noteq> fetched \<Longrightarrow> selection_vector dst' ! i = selection_vector dst ! i"
    and "fetched < length (selection_vector dst) \<Longrightarrow> selection_vector dst' ! fetched \<Longrightarrow>
           m_mvcc_snap it (insertion_timestamp row) \<and> \<not> out_of_bounds it k"
  using assms
  by (auto simp: FetchRows_body_def ApplyMutationsToProjectedRow_def SetRowUnselected_def Let_def
                 has_upper_bound_def out_of_bounds_def
           split: if_splits sum.splits prod.splits option.splits)

lemma FetchRows_body_Break:
  "FetchRows_body env it dst fetched k row = Break dst' \<Longrightarrow> dst' = dst"
  by (auto simp: FetchRows_body_def Let_def split: if_splits sum.splits prod.splits)

lemma FetchRows_body_Return:
  "FetchRows_body env it dst fetched k row = Return st dst' \<Longrightarrow>
     nrows dst' = nrows dst \<and> selection_vector dst' = selection_vector dst"
  by (auto simp: FetchRows_body_def Let_def split: if_splits sum.splits prod.splits)

lemma FetchRows_loop_selected:
  "FetchRows_loop env it dst fetched = Some (st, it', dst', n) \<Longrightarrow>
   length (selection_vector dst) = nrows dst \<Longrightarrow> fetched < nrows dst \<Longrightarrow>
   fetched \<le> n \<and> n \<le> nrows dst \<and> nrows dst' = nrows dst
   \<and> length (selection_vector dst') = nrows dst
   \<and> (\<forall>i<fetched. selection_vector dst' ! i = selection_vector dst ! i)
   \<and> (\<forall>i. fetched \<le> i \<and> i < n \<and> selection_vector dst' ! i \<longrightarrow>
          m_iter it + (i - fetched) < length (m_tree (m_memrowset it))
          \<and> m_mvcc_snap it (insertion_timestamp (snd (m_tree (m_memrowset it) ! (m_iter it + (i - fetched)))))
          \<and> \<not> out_of_bounds it (fst (m_tree (m_memrowset it) ! (m_iter it + (i - fetched)))))"
proof (induction env it dst fetched arbitrary: st it' dst' n rule: FetchRows_loop.induct)
  case (1 env it dst fetched)
  let ?tree = "m_tree (m_memrowset it)"
  from "1.prems"(1) have valid: "iter_IsValid ?tree (m_iter it)"
    by (subst (asm) FetchRows_loop.simps) (simp split: if_splits)
  obtain k row where entry: "?tree ! m_iter it = (k, row)"
    by (cases "?tree ! m_iter it")
  have unfold: "FetchRows_loop env it dst fetched =
      (case FetchRows_body env it dst fetched k row of
         Break d \<Rightarrow> Some (OK, it\<lparr>m_state := kFinished\<rparr>, d, fetched)
       | Return s d \<Rightarrow> Some (s, it, d, fetched)
       | Continue d \<Rightarrow>
           (if Suc (m_iter it) < length ?tree \<and> fetched + 1 < nrows d
            then FetchRows_loop env (it\<lparr>m_iter := Suc (m_iter it)\<rparr>) d (fetched + 1)
            else Some (OK, it\<lparr>m_iter := Suc (m_iter it)\<rparr>, d, fetched + 1)))"
    using valid entry by (subst FetchRows_loop.simps) (simp add: iter_Next_def split: LoopStep.splits)
  show ?case
  proof (cases "FetchRows_body env it dst fetched k row")
    case (Break d)
    with unfold "1.prems" FetchRows_body_Break [OF Break] show ?thesis by auto
  next
    case (Return s d)
    with unfold "1.prems" FetchRows_body_Return [OF Return] show ?thesis by auto
  next
    case (Continue d)
    note b = FetchRows_body_Continue [OF Continue]
    have here: "selection_vector d ! fetched \<longrightarrow>
                  m_iter it < length ?tree \<and> m_mvcc_snap it (insertion_timestamp (snd (?tree ! m_iter it)))
                  \<and> \<not> out_of_bounds it (fst (?tree ! m_iter it))"
      using b(4) "1.prems"(2,3) valid entry by (simp add: iter_IsValid_def)
    show ?thesis
    proof (cases "Suc (m_iter it) < length ?tree \<and> fetched + 1 < nrows d")
      case False
      with unfold Continue "1.prems"(1) have res: "dst' = d" "n = fetched + 1" by auto
      have "i = fetched" if "fetched \<le> i" "i < n" for i
        using that res(2) by simp
      with res b(1,2,3) "1.prems"(2,3) here show ?thesis
        by (auto simp: less_Suc_eq_le)
    next
      case True
      with unfold Continue "1.prems"(1)
      have rec: "FetchRows_loop env (it\<lparr>m_iter := Suc (m_iter it)\<rparr>) d (fetched + 1) = Some (st, it', dst', n)"
        by simp
      have ih: "fetched + 1 \<le> n \<and> n \<le> nrows d \<and> nrows dst' = nrows d
          \<and> length (selection_vector dst') = nrows d
          \<and> (\<forall>i<fetched + 1. selection_vector dst' ! i = selection_vector d ! i)
          \<and> (\<forall>i. fetched + 1 \<le> i \<and> i < n \<and> selection_vector dst' ! i \<longrightarrow>
                Suc (m_iter it) + (i - (fetched + 1)) < length ?tree
                \<and> m_mvcc_snap it (insertion_timestamp (snd (?tree ! (Suc (m_iter it) + (i - (fetched + 1))))))
                \<and> \<not> out_of_bounds it (fst (?tree ! (Suc (m_iter it) + (i - (fetched + 1))))))"
        using "1.IH" [of k row d st it' dst' n] valid entry Continue True rec b(1,2) "1.prems"(2)
        by (simp add: iter_Next_def out_of_bounds_def)
      have old: "\<forall>i<fetched. selection_vector dst' ! i = selection_vector dst ! i"
        using ih b(3) by simp
      have new: "m_iter it + (i - fetched) < length ?tree
                \<and> m_mvcc_snap it (insertion_timestamp (snd (?tree ! (m_iter it + (i - fetched)))))
                \<and> \<not> out_of_bounds it (fst (?tree ! (m_iter it + (i - fetched))))"
        if i: "fetched \<le> i" "i < n" "selection_vector dst' ! i" for i
      proof (cases "i = fetched")
        case True
        with i(3) ih have "selection_vector d ! fetched" by simp
        with here True show ?thesis by simp
      next
        case False
        with i(1) have "fetched + 1 \<le> i" by simp
        moreover have "Suc (m_iter it) + (i - (fetched + 1)) = m_iter it + (i - fetched)"
          using \<open>fetched + 1 \<le> i\<close> by simp
        ultimately show ?thesis using ih i(2,3) by metis
      qed
      from ih b(1) old new "1.prems"(2) show ?thesis by simp
    qed
  qed
qed

lemma Resize_fields:
  "nrows (Resize n dst) = n"
  "length (selection_vector (Resize n dst)) = n"
  "i < n \<Longrightarrow> n \<le> length (selection_vector dst) \<Longrightarrow>
     selection_vector (Resize n dst) ! i = selection_vector dst ! i"
  by (simp_all add: Resize_def)

lemma prepared_block:
  "nrows (SetAllTrue (arena_Reset (Resize n dst))) = n"
  "length (selection_vector (SetAllTrue (arena_Reset (Resize n dst)))) = n"
  by (auto simp: SetAllTrue_def arena_Reset_def Resize_def split: option.splits)

lemma NextBlock_below_upper_bound:
  assumes nb: "NextBlock env it dst = Some (OK, it', dst')"
    and cap: "0 < row_capacity dst" and ub: "m_upper_bound it = Some ub"
    and i: "i < nrows dst'" "selection_vector dst' ! i"
  shows "m_iter it + i < length (m_tree (m_memrowset it))
         \<and> m_mvcc_snap it (insertion_timestamp (snd (m_tree (m_memrowset it) ! (m_iter it + i))))
         \<and> fst (m_tree (m_memrowset it) ! (m_iter it + i)) < ub"
proof (cases "iter_IsValid (m_tree (m_memrowset it)) (m_iter it) \<and> m_state it = kScanning")
  case False
  with nb have "nrows dst' = 0"
    by (auto simp: NextBlock_def Resize_fields split: if_splits)
  with i show ?thesis by simp
next
  case True
  let ?d0 = "SetAllTrue (arena_Reset (Resize (row_capacity dst) dst))"
  from True cap nb obtain d n where
    loop: "FetchRows_loop env it ?d0 0 = Some (OK, it', d, n)" and res: "dst' = Resize n d"
    by (auto simp: NextBlock_def FetchRows_def split: option.splits if_splits)
  from FetchRows_loop_selected [OF loop] cap
  have inv: "n \<le> row_capacity dst" "length (selection_vector d) = row_capacity dst"
    "\<forall>j. j < n \<and> selection_vector d ! j \<longrightarrow>
        m_iter it + j < length (m_tree (m_memrowset it))
        \<and> m_mvcc_snap it (insertion_timestamp (snd (m_tree (m_memrowset it) ! (m_iter it + j))))
        \<and> \<not> out_of_bounds it (fst (m_tree (m_memrowset it) ! (m_iter it + j)))"
    by (simp_all add: prepared_block)
  from i res have "i < n" by (simp add: Resize_fields)
  moreover from i res inv(1,2) \<open>i < n\<close> have "selection_vector d ! i"
    by (simp add: Resize_fields)
  ultimately have "m_iter it + i < length (m_tree (m_memrowset it))
        \<and> m_mvcc_snap it (insertion_timestamp (snd (m_tree (m_memrowset it) ! (m_iter it + i))))
        \<and> \<not> out_of_bounds it (fst (m_tree (m_memrowset it) ! (m_iter it + i)))"
    using inv(3) by blast
  then show ?thesis using ub by (simp add: out_of_bounds_iff not_le)
qed

lemma Init_key_ranges:
  assumes pi: "projector_Init env = OK" "delta_projector_Init env = OK"
    and ne: "encoded_ranges spec \<noteq> []" and nub: "m_upper_bound it = None"
    and run: "Init env it (Some spec) = (st, it1)"
  shows "st = OK"
    and "m_tree (m_memrowset it1) = m_tree (m_memrowset it)"
    and "lower_bounds (encoded_ranges spec) \<noteq> [] \<Longrightarrow>
           m_iter it1 = fst (iter_SeekAtOrAfter (m_tree (m_memrowset it))
                              (Max (set (lower_bounds (encoded_ranges spec)))))"
    and "lower_bounds (encoded_ranges spec) = [] \<Longrightarrow> m_iter it1 = m_iter it"
    and "m_state it1 =
           (if lower_bounds (encoded_ranges spec) \<noteq> []
               \<and> \<not> snd (snd (iter_SeekAtOrAfter (m_tree (m_memrowset it))
                                (Max (set (lower_bounds (encoded_ranges spec))))))
            then kFinished else kScanning)"
    and "m_state it1 = kScanning \<Longrightarrow>
           m_upper_bound it1 =
             (if upper_bounds (encoded_ranges spec) = [] then None
              else Some (Min (set (upper_bounds (encoded_ranges spec)))))"
proof -
  let ?rs = "encoded_ranges spec"
  let ?lbs = "lower_bounds ?rs"
  let ?tree = "m_tree (m_memrowset it)"
  have sk0: "seeked it None" by (simp add: seeked_def)
  have all: "st = OK \<and> m_tree (m_memrowset it1) = ?tree
     \<and> (?lbs \<noteq> [] \<longrightarrow> m_iter it1 = fst (iter_SeekAtOrAfter ?tree (Max (set ?lbs))))
     \<and> (?lbs = [] \<longrightarrow> m_iter it1 = m_iter it)
     \<and> m_state it1 = (if ?lbs \<noteq> [] \<and> \<not> snd (snd (iter_SeekAtOrAfter ?tree (Max (set ?lbs))))
                       then kFinished else kScanning)
     \<and> (m_state it1 = kScanning \<longrightarrow>
           m_upper_bound it1 = (if upper_bounds ?rs = [] then None
                                else Some (Min (set (upper_bounds ?rs)))))"
  proof (cases "Init_ranges it None ?rs")
    case (Inl it0)
    from Init_ranges_Inl [OF Inl sk0] obtain lb where
      fin: "m_state it0 = kFinished" "m_iter it0 = length ?tree"
      and same: "m_tree (m_memrowset it0) = ?tree"
      and lb: "lb \<in> set ?lbs" "\<not> snd (snd (iter_SeekAtOrAfter ?tree lb))"
      by blast
    from lb(1) have nonempty: "?lbs \<noteq> []" by auto
    from lb(1) have "lb \<le> Max (set ?lbs)" by simp
    with lb(2) have nf: "\<not> snd (snd (iter_SeekAtOrAfter ?tree (Max (set ?lbs))))"
      using seek_found_mono by blast
    from run pi ne Inl have "st = OK" "it1 = it0" by (simp_all add: Init_def)
    with fin nonempty nf same show ?thesis by (simp add: seek_not_found_pos)
  next
    case (Inr p)
    then obtain it0 mlb where r: "Init_ranges it None ?rs = Inr (it0, mlb)" by (cases p) simp
    note f = Init_ranges_Inr [OF r sk0]
    from f have ft: "m_tree (m_memrowset it0) = ?tree" by blast
    from f have fsk: "seeked it0 mlb" by blast
    from f have fit: "mlb = None \<longrightarrow> m_iter it0 = m_iter it" by blast
    from f have mlb: "mlb = (if ?lbs = [] then None else Some (Max (set ?lbs)))"
      by (simp add: max_opt_None)
    from f nub have ubd: "m_upper_bound it0 = (if upper_bounds ?rs = [] then None
                                else Some (Min (set (upper_bounds ?rs))))"
      by (simp add: min_opt_None)
    show ?thesis
    proof (cases "?lbs = []")
      case True
      with mlb run pi ne r have "st = OK" "it1 = it0\<lparr>m_state := kScanning\<rparr>"
        by (simp_all add: Init_def)
      with ft fit True mlb ubd show ?thesis by simp
    next
      case False
      with mlb have m: "mlb = Some (Max (set ?lbs))" by simp
      with run pi ne r have res: "st = OK"
        "it1 = it0\<lparr>m_iter := fst (iter_SeekAtOrAfter (m_tree (m_memrowset it0)) (Max (set ?lbs))),
                   m_state := kScanning\<rparr>"
        by (simp_all add: Init_def)
      from fsk m ft have "snd (snd (iter_SeekAtOrAfter ?tree (Max (set ?lbs))))"
        by (simp add: seeked_def)
      with res ft False ubd show ?thesis by simp
    qed
  qed
  from all show "st = OK" by blast
  from all show "m_tree (m_memrowset it1) = m_tree (m_memrowset it)" by blast
  from all show "?lbs \<noteq> [] \<Longrightarrow> m_iter it1 = fst (iter_SeekAtOrAfter ?tree (Max (set ?lbs)))" by blast
  from all show "?lbs = [] \<Longrightarrow> m_iter it1 = m_iter it" by blast
  from all show "m_state it1 = (if ?lbs \<noteq> [] \<and> \<not> snd (snd (iter_SeekAtOrAfter ?tree (Max (set ?lbs))))
                       then kFinished else kScanning)" by blast
  from all show "m_state it1 = kScanning \<Longrightarrow>
           m_upper_bound it1 = (if upper_bounds ?rs = [] then None
                                else Some (Min (set (upper_bounds ?rs))))" by blast
qed

lemma FetchRows_loop_step:
  "iter_IsValid (m_tree (m_memrowset it)) (m_iter it) \<Longrightarrow>
   FetchRows_loop env it dst fetched =
     (case FetchRows_body env it dst fetched (fst (m_tree (m_memrowset it) ! m_iter it))
             (snd (m_tree (m_memrowset it) ! m_iter it)) of
        Break d \<Rightarrow> Some (OK, it\<lparr>m_state := kFinished\<rparr>, d, fetched)
      | Return s d \<Rightarrow> Some (s, it, d, fetched)
      | Continue d \<Rightarrow>
          (if Suc (m_iter it) < length (m_tree (m_memrowset it)) \<and> fetched + 1 < nrows d
           then FetchRows_loop env (it\<lparr>m_iter := Suc (m_iter it)\<rparr>) d (fetched + 1)
           else Some (OK, it\<lparr>m_iter := Suc (m_iter it)\<rparr>, d, fetched + 1)))"
  by (subst FetchRows_loop.simps)
     (simp add: iter_Next_def case_prod_beta split: LoopStep.splits)

lemma scenario_inserted:
  "Insert_all (example_env 0) (example_mrs []) scenario_inserts = Some scenario_mrs"
  by (simp add: scenario_inserts_def scenario_mrs_def example_env_def example_mrs_def example_row_def
                Insert_def Prepare_def AnchorIfMinimum_def SlowMutators_def word_sless_alt Let_def)

lemma scenario_Init:
  "Init (example_env 0) (NewIterator scenario_mrs (\<lambda>t. True)) (Some scenario_spec) = (OK, scenario_iter)"
  by (simp add: scenario_iter_def scenario_spec_def scenario_mrs_def example_env_def
                example_mrs_def example_row_def NewIterator_def Init_def Init_lower_def Init_upper_def
                has_upper_bound_def Slice_compare_def iter_SeekAtOrAfter_def)


lemma scenario_tree: "m_tree (m_memrowset scenario_iter) =
   [example_row 3 ''a'', example_row 2 ''b'', example_row 4 ''c'', example_row 1 ''d'']"
  by (simp add: scenario_iter_def NewIterator_def scenario_mrs_def example_mrs_def)



lemma rb4: "ready_block 4 = \<lparr>row_capacity = 4, nrows = 4, rows = [[], [], [], []],
     selection_vector = [True, True, True, True], arena = Some []\<rparr>"
  by (simp add: ready_block_def eval_nat_numeral)


lemma prepared4: "SetAllTrue (arena_Reset (Resize 4 (example_block 4))) = ready_block 4"
  by (simp add: ready_block_def example_block_def SetAllTrue_def arena_Reset_def Resize_def)

lemma scenario_FetchRows:
  "FetchRows_loop (example_env 0) scenario_iter (ready_block 4) 0
     = Some (OK, scenario_iter\<lparr>m_iter := 3, m_state := kFinished\<rparr>,
             (ready_block 4)\<lparr>rows := [''b'', ''c'', [], []]\<rparr>, 2)"
proof -
  note defs = rb4 scenario_iter_def NewIterator_def scenario_mrs_def example_mrs_def
                  example_row_def example_env_def iter_IsValid_def
                  FetchRows_body_def has_upper_bound_def out_of_bounds_def Slice_compare_def
                  ApplyMutationsToProjectedRow_def numeral_2_eq_2 numeral_3_eq_3
  have 1: "FetchRows_loop (example_env 0) scenario_iter (ready_block 4) 0
      = FetchRows_loop (example_env 0) (scenario_iter\<lparr>m_iter := 2\<rparr>)
          ((ready_block 4)\<lparr>rows := [''b'', [], [], []]\<rparr>) 1"
    using FetchRows_loop_step [where it = scenario_iter and env = "example_env 0"
                                 and dst = "ready_block 4" and fetched = 0]
    by (simp add: defs)
  have 2: "FetchRows_loop (example_env 0) (scenario_iter\<lparr>m_iter := 2\<rparr>)
          ((ready_block 4)\<lparr>rows := [''b'', [], [], []]\<rparr>) 1
      = FetchRows_loop (example_env 0) (scenario_iter\<lparr>m_iter := 3\<rparr>)
          ((ready_block 4)\<lparr>rows := [''b'', ''c'', [], []]\<rparr>) 2"
    using FetchRows_loop_step [where it = "scenario_iter\<lparr>m_iter := 2\<rparr>" and env = "example_env 0"
                                 and dst = "(ready_block 4)\<lparr>rows := [''b'', [], [], []]\<rparr>"
                                 and fetched = 1]
    by (simp add: defs)
  have 3: "FetchRows_loop (example_env 0) (scenario_iter\<lparr>m_iter := 3\<rparr>)
          ((ready_block 4)\<lparr>rows := [''b'', ''c'', [], []]\<rparr>) 2
      = Some (OK, scenario_iter\<lparr>m_iter := 3, m_state := kFinished\<rparr>,
             (ready_block 4)\<lparr>rows := [''b'', ''c'', [], []]\<rparr>, 2)"
    using FetchRows_loop_step [where it = "scenario_iter\<lparr>m_iter := 3\<rparr>" and env = "example_env 0"
                                 and dst = "(ready_block 4)\<lparr>rows := [''b'', ''c'', [], []]\<rparr>"
                                 and fetched = 2]
    by (simp add: defs)
  from 1 2 3 show ?thesis by simp
qed

lemma scenario_selected:
  "selected_rows (Resize 2 ((ready_block 4)\<lparr>rows := [''b'', ''c'', [], []]\<rparr>)) = [''b'', ''c'']"
  by (simp add: rb4 selected_rows_def Resize_def numeral_2_eq_2)

lemma scenario_scan:
  "scan_first_block (example_env 0) scenario_mrs (\<lambda>t. True) (Some scenario_spec) 4
     = Some (OK, kFinished, [''b'', ''c''])"
proof -
  have valid: "iter_IsValid (m_tree (m_memrowset scenario_iter)) (m_iter scenario_iter)"
    by (simp add: scenario_tree iter_IsValid_def) (simp add: scenario_iter_def)
  have "NextBlock (example_env 0) scenario_iter (example_block 4)
      = Some (OK, scenario_iter\<lparr>m_iter := 3, m_state := kFinished\<rparr>,
              Resize 2 ((ready_block 4)\<lparr>rows := [''b'', ''c'', [], []]\<rparr>))"
    using valid
    by (simp add: NextBlock_def FetchRows_def prepared4 [simplified example_block_def] example_block_def scenario_FetchRows)
       (simp add: scenario_iter_def)
  then show ?thesis
    by (simp add: scan_first_block_def scenario_Init scenario_selected)
qed

text \<open>
  Claim C3. For a scan spec with encoded key ranges the iterator seeks to the maximum of
  all lower bounds (and the scan is finished at once when that seek runs off the end of
  the index), it keeps the minimum of all upper bounds, and every row that a block returns
  lies strictly below that upper bound: a row whose key equals the upper bound is not
  returned. Concretely, after the inserts of d, b, a, c the index holds a, b, c, d, and
  the scan with the lower bound b and the upper bound d returns exactly the rows b, c and
  is finished.
\<close>

theorem scan_key_ranges:
  assumes "projector_Init env = OK" and "delta_projector_Init env = OK"
    and "encoded_ranges spec \<noteq> []" and "m_upper_bound it = None"
  shows "fst (Init env it (Some spec)) = OK
     \<and> (lower_bounds (encoded_ranges spec) \<noteq> [] \<longrightarrow>
          m_iter (snd (Init env it (Some spec)))
            = fst (iter_SeekAtOrAfter (m_tree (m_memrowset it))
                     (Max (set (lower_bounds (encoded_ranges spec))))))
     \<and> m_state (snd (Init env it (Some spec))) =
          (if lower_bounds (encoded_ranges spec) \<noteq> []
              \<and> \<not> snd (snd (iter_SeekAtOrAfter (m_tree (m_memrowset it))
                               (Max (set (lower_bounds (encoded_ranges spec))))))
           then kFinished else kScanning)
     \<and> (m_state (snd (Init env it (Some spec))) = kScanning \<longrightarrow>
          m_upper_bound (snd (Init env it (Some spec))) =
            (if upper_bounds (encoded_ranges spec) = [] then None
             else Some (Min (set (upper_bounds (encoded_ranges spec))))))
     \<and> (\<forall>itn dst it' dst' ub i.
           NextBlock env itn dst = Some (OK, it', dst') \<and> 0 < row_capacity dst
           \<and> m_upper_bound itn = Some ub \<and> i < nrows dst' \<and> selection_vector dst' ! i \<longrightarrow>
           m_iter itn + i < length (m_tree (m_memrowset itn))
           \<and> fst (m_tree (m_memrowset itn) ! (m_iter itn + i)) < ub)
     \<and> Insert_all (example_env 0) (example_mrs []) scenario_inserts = Some scenario_mrs
     \<and> map fst (m_tree scenario_mrs) = [''a'', ''b'', ''c'', ''d'']
     \<and> scan_first_block (example_env 0) scenario_mrs (\<lambda>t. True) (Some scenario_spec) 4
          = Some (OK, kFinished, [''b'', ''c''])"
proof -
  obtain st it1 where run: "Init env it (Some spec) = (st, it1)"
    by (cases "Init env it (Some spec)")
  note k = Init_key_ranges [OF assms run]
  have blocks: "m_iter itn + i < length (m_tree (m_memrowset itn))
           \<and> fst (m_tree (m_memrowset itn) ! (m_iter itn + i)) < ub"
    if "NextBlock env itn dst = Some (OK, it', dst')" "0 < row_capacity dst"
       "m_upper_bound itn = Some ub" "i < nrows dst'" "selection_vector dst' ! i"
    for itn dst it' dst' ub i
    using NextBlock_below_upper_bound [OF that] by blast
  have keys: "map fst (m_tree scenario_mrs) = [''a'', ''b'', ''c'', ''d'']"
    by (simp add: scenario_mrs_def example_mrs_def example_row_def)
  from k(1) run have 1: "fst (Init env it (Some spec)) = OK" by simp
  from k(3) run have 2: "lower_bounds (encoded_ranges spec) \<noteq> [] \<longrightarrow>
          m_iter (snd (Init env it (Some spec)))
            = fst (iter_SeekAtOrAfter (m_tree (m_memrowset it))
                     (Max (set (lower_bounds (encoded_ranges spec)))))" by simp
  from k(5) run have 3: "m_state (snd (Init env it (Some spec))) =
          (if lower_bounds (encoded_ranges spec) \<noteq> []
              \<and> \<not> snd (snd (iter_SeekAtOrAfter (m_tree (m_memrowset it))
                               (Max (set (lower_bounds (encoded_ranges spec))))))
           then kFinished else kScanning)" by simp
  from k(6) run have 4: "m_state (snd (Init env it (Some spec))) = kScanning \<longrightarrow>
          m_upper_bound (snd (Init env it (Some spec))) =
            (if upper_bounds (encoded_ranges spec) = [] then None
             else Some (Min (set (upper_bounds (encoded_ranges spec)))))" by simp
  from 1 2 3 4 blocks keys scenario_inserted scenario_scan show ?thesis by blast
qed

theorem scan_key_ranges_witness:
  "projector_Init (example_env 0) = OK \<and> delta_projector_Init (example_env 0) = OK
   \<and> encoded_ranges scenario_spec \<noteq> []
   \<and> m_upper_bound (NewIterator scenario_mrs (\<lambda>t. True)) = None
   \<and> Init (example_env 0) (NewIterator scenario_mrs (\<lambda>t. True)) (Some scenario_spec)
        = (OK, (NewIterator scenario_mrs (\<lambda>t. True))
                 \<lparr>m_iter := 1, m_upper_bound := Some ''d'', m_state := kScanning\<rparr>)
   \<and> fst (iter_SeekAtOrAfter (m_tree scenario_mrs) ''b'') = 1
   \<and> scan_first_block (example_env 0) scenario_mrs (\<lambda>t. True) (Some scenario_spec) 4
        = Some (OK, kFinished, [''b'', ''c''])"
proof -
  have h: "projector_Init (example_env 0) = OK" "delta_projector_Init (example_env 0) = OK"
    "encoded_ranges scenario_spec \<noteq> []" "m_upper_bound (NewIterator scenario_mrs (\<lambda>t. True)) = None"
    by (simp_all add: example_env_def scenario_spec_def NewIterator_def)
  have pos: "fst (iter_SeekAtOrAfter (m_tree scenario_mrs) ''b'') = 1"
    by (simp add: iter_SeekAtOrAfter_def scenario_mrs_def example_mrs_def example_row_def)
  from scan_key_ranges [OF h] h pos scenario_Init show ?thesis
    by (simp add: scenario_iter_def)
qed


section \<open>Properties of the cache\<close>

subsection \<open>The hash table\<close>

lemma nat_and_le: "(a::nat) AND b \<le> b"
proof -
  have "int a AND int b \<le> int b" by (rule AND_upper2) simp
  then show ?thesis by (simp flip: of_nat_and_eq)
qed

lemma bucket_less: "0 < n \<Longrightarrow> (a::nat) AND (n - 1) < n"
  using nat_and_le [of a "n - 1"] by simp

lemma FindPointer_chain_takeWhile:
  "FindPointer_chain hp key hash chain = length (takeWhile (\<lambda>p. ident hp p \<noteq> (hash, key)) chain)"
  by (induction chain) (auto simp: ident_def)

lemma concat_split:
  "i < length l \<Longrightarrow> concat l = concat (take i l) @ l ! i @ concat (drop (Suc i) l)"
  by (metis append_Cons append_Nil concat.simps(2) concat_append id_take_nth_drop)

lemma concat_update:
  "i < length l \<Longrightarrow> concat (l[i := c]) = concat (take i l) @ c @ concat (drop (Suc i) l)"
  by (simp add: upd_conv_take_nth_drop)

lemma in_concat_nth: "(e \<in> set (concat l)) = (\<exists>i<length l. e \<in> set (l ! i))"
proof
  assume "e \<in> set (concat l)"
  then obtain c where "c \<in> set l" "e \<in> set c" by auto
  then show "\<exists>i<length l. e \<in> set (l ! i)" by (auto simp: in_set_conv_nth)
next
  assume "\<exists>i<length l. e \<in> set (l ! i)"
  then obtain i where "i < length l" "e \<in> set (l ! i)" by blast
  then have "l ! i \<in> set l" by simp
  with \<open>e \<in> set (l ! i)\<close> show "e \<in> set (concat l)" by auto
qed


lemma table_bucket:
  assumes "table_ok hp t"
  shows "unat hash AND (m_length t - 1) < length (m_list t)"
  using assms bucket_less [of "m_length t" "unat hash"] by (simp add: table_ok_def)

lemma entries_bucket:
  assumes ok: "table_ok hp t" and e: "e \<in> entries t"
  shows "e \<in> set (m_list t ! (unat (fst (ident hp e)) AND (m_length t - 1)))" and "e \<in> dom hp"
proof -
  from e obtain i where i: "i < length (m_list t)" "e \<in> set (m_list t ! i)"
    unfolding entries_def in_concat_nth by blast
  with ok have "e \<in> dom hp \<and> unat (fst (ident hp e)) AND (m_length t - 1) = i"
    by (simp add: table_ok_def)
  with i show "e \<in> set (m_list t ! (unat (fst (ident hp e)) AND (m_length t - 1)))" "e \<in> dom hp"
    by simp_all
qed

lemma table_Lookup_iff:
  assumes ok: "table_ok hp t"
  shows "(HandleTable_Lookup hp t key hash = Some e) = (e \<in> entries t \<and> ident hp e = (hash, key))"
proof -
  let ?i = "unat hash AND (m_length t - 1)"
  let ?chain = "m_list t ! ?i"
  let ?P = "\<lambda>p. ident hp p \<noteq> (hash, key)"
  let ?j = "length (takeWhile ?P ?chain)"
  have i: "?i < length (m_list t)" by (rule table_bucket [OF ok])
  have look: "HandleTable_Lookup hp t key hash = (if ?j < length ?chain then Some (?chain ! ?j) else None)"
    by (simp add: HandleTable_Lookup_def FindPointer_def deref_def Let_def FindPointer_chain_takeWhile)
  show ?thesis
  proof
    assume "HandleTable_Lookup hp t key hash = Some e"
    with look have j: "?j < length ?chain" and e: "e = ?chain ! ?j"
      by (simp_all split: if_splits)
    from j have "\<not> ?P (?chain ! ?j)" by (rule nth_length_takeWhile)
    moreover from j e have "e \<in> set ?chain" by simp
    with i have "e \<in> entries t" unfolding entries_def in_concat_nth by blast
    ultimately show "e \<in> entries t \<and> ident hp e = (hash, key)" using e by simp
  next
    assume a: "e \<in> entries t \<and> ident hp e = (hash, key)"
    with entries_bucket(1) [OF ok, of e] have mem: "e \<in> set ?chain" by simp
    with a have "\<exists>x\<in>set ?chain. \<not> ?P x" by blast
    then have j: "?j < length ?chain"
      by (simp add: takeWhile_short_iff)
    then have "\<not> ?P (?chain ! ?j)" by (rule nth_length_takeWhile)
    then have same: "ident hp (?chain ! ?j) = ident hp e" using a by simp
    from j have "?chain ! ?j \<in> set ?chain" by simp
    with i have mem': "?chain ! ?j \<in> entries t"
      unfolding entries_def in_concat_nth by blast
    from ok have "inj_on (ident hp) (entries t)" by (simp add: table_ok_def)
    from inj_onD [OF this same mem'] a have "?chain ! ?j = e" by blast
    with look j show "HandleTable_Lookup hp t key hash = Some e" by simp
  qed
qed

lemma bucket_update:
  assumes i: "i < length l" and d: "distinct (concat l)" and dc: "distinct c"
    and disj: "set c \<inter> (set (concat l) - set (l ! i)) = {}"
  shows "distinct (concat (l[i := c]))"
    and "set (concat (l[i := c])) = (set (concat l) - set (l ! i)) \<union> set c"
    and "length (concat (l[i := c])) + length (l ! i) = length (concat l) + length c"
proof -
  let ?A = "concat (take i l)" and ?B = "concat (drop (Suc i) l)"
  have old: "concat l = ?A @ l ! i @ ?B" by (rule concat_split [OF i])
  have new: "concat (l[i := c]) = ?A @ c @ ?B" by (rule concat_update [OF i])
  from d old have dd: "distinct ?A" "distinct ?B" "set ?A \<inter> set (l ! i) = {}"
    "set ?A \<inter> set ?B = {}" "set (l ! i) \<inter> set ?B = {}"
    by auto
  from old have rest: "set (concat l) - set (l ! i) = set ?A \<union> set ?B"
    using dd(3,5) by auto
  with disj have "set c \<inter> set ?A = {}" "set c \<inter> set ?B = {}" by auto
  with dd dc show "distinct (concat (l[i := c]))"
    unfolding new by auto
  show "set (concat (l[i := c])) = (set (concat l) - set (l ! i)) \<union> set c"
    unfolding new rest by auto
  show "length (concat (l[i := c])) + length (l ! i) = length (concat l) + length c"
    unfolding new by (subst old) simp
qed

lemma table_update:
  assumes ok: "table_ok hp t" and i: "i < m_length t" and dc: "distinct c"
    and disj: "set c \<inter> (entries t - set (m_list t ! i)) = {}"
    and place: "\<forall>e\<in>set c. e \<in> dom hp \<and> unat (fst (ident hp e)) AND (m_length t - 1) = i"
    and inj: "inj_on (ident hp) ((entries t - set (m_list t ! i)) \<union> set c)"
    and n: "n + length (m_list t ! i) = m_elems t + length c"
  shows "table_ok hp (t\<lparr>m_list := (m_list t)[i := c], m_elems := n\<rparr>)"
    and "entries (t\<lparr>m_list := (m_list t)[i := c], m_elems := n\<rparr>) = (entries t - set (m_list t ! i)) \<union> set c"
proof -
  from ok i have il: "i < length (m_list t)" and d: "distinct (concat (m_list t))"
    and el: "m_elems t = length (concat (m_list t))" and len: "length (m_list t) = m_length t"
    and pos: "0 < m_length t"
    and pl: "\<forall>k<m_length t. \<forall>e\<in>set (m_list t ! k).
               e \<in> dom hp \<and> unat (fst (ident hp e)) AND (m_length t - 1) = k"
    by (simp_all add: table_ok_def)
  from disj have disj': "set c \<inter> (set (concat (m_list t)) - set (m_list t ! i)) = {}"
    by (simp add: entries_def)
  note u = bucket_update [OF il d dc disj']
  show ent: "entries (t\<lparr>m_list := (m_list t)[i := c], m_elems := n\<rparr>) = (entries t - set (m_list t ! i)) \<union> set c"
    using u(2) by (simp add: entries_def)
  have cnt: "n = length (concat ((m_list t)[i := c]))"
    using u(3) n el by simp
  have pl': "\<forall>k<m_length t. \<forall>e\<in>set ((m_list t)[i := c] ! k).
               e \<in> dom hp \<and> unat (fst (ident hp e)) AND (m_length t - 1) = k"
  proof (intro allI impI)
    fix k assume k: "k < m_length t"
    show "\<forall>e\<in>set ((m_list t)[i := c] ! k).
            e \<in> dom hp \<and> unat (fst (ident hp e)) AND (m_length t - 1) = k"
    proof (cases "k = i")
      case True
      with il place show ?thesis by simp
    next
      case False
      with k pl show ?thesis by simp
    qed
  qed
  from inj ent have inj': "inj_on (ident hp) (entries (t\<lparr>m_list := (m_list t)[i := c], m_elems := n\<rparr>))"
    by simp
  from len pos cnt u(1) pl' inj'
  show "table_ok hp (t\<lparr>m_list := (m_list t)[i := c], m_elems := n\<rparr>)"
    by (simp add: table_ok_def)
qed

lemma set_remove_nth:
  assumes "distinct chain" and "j < length chain"
  shows "set (take j chain @ drop (Suc j) chain) = set chain - {chain ! j}"
    and "distinct (take j chain @ drop (Suc j) chain)"
    and "length (take j chain @ drop (Suc j) chain) + 1 = length chain"
proof -
  from assms(2) have split: "chain = take j chain @ chain ! j # drop (Suc j) chain"
    by (rule id_take_nth_drop)
  with assms(1) have d: "distinct (take j chain @ chain ! j # drop (Suc j) chain)" by simp
  then show "distinct (take j chain @ drop (Suc j) chain)" by auto
  from d have "chain ! j \<notin> set (take j chain)" "chain ! j \<notin> set (drop (Suc j) chain)" by auto
  moreover have "set chain = set (take j chain) \<union> {chain ! j} \<union> set (drop (Suc j) chain)"
    by (subst split) auto
  ultimately show "set (take j chain @ drop (Suc j) chain) = set chain - {chain ! j}" by auto
  from assms(2) show "length (take j chain @ drop (Suc j) chain) + 1 = length chain" by auto
qed

lemma chain_distinct:
  assumes "table_ok hp t" and "i < m_length t"
  shows "distinct (m_list t ! i)" and "set (m_list t ! i) \<subseteq> entries t"
proof -
  from assms have il: "i < length (m_list t)" and d: "distinct (concat (m_list t))"
    by (simp_all add: table_ok_def)
  from d concat_split [OF il] show "distinct (m_list t ! i)" by (metis distinct_append)
  from il show "set (m_list t ! i) \<subseteq> entries t"
    unfolding entries_def using in_concat_nth [of _ "m_list t"] by blast
qed

lemma chain_length_le:
  assumes "i < length l"
  shows "length (l ! i) \<le> length (concat l)"
proof -
  have "length (concat l) = length (concat (take i l) @ l ! i @ concat (drop (Suc i) l))"
    using concat_split [OF assms] by simp
  then show ?thesis by simp
qed

lemma table_Remove:
  assumes ok: "table_ok hp t" and res: "HandleTable_Remove hp t key hash = (r, t')"
  shows "r = HandleTable_Lookup hp t key hash" and "table_ok hp t'"
    and "entries t' = entries t - set_option r"
proof -
  let ?i = "unat hash AND (m_length t - 1)"
  let ?chain = "m_list t ! ?i"
  let ?j = "FindPointer_chain hp key hash ?chain"
  have fp: "FindPointer hp t key hash = (?i, ?j)" by (simp add: FindPointer_def Let_def)
  from ok have i: "?i < m_length t" using table_bucket [OF ok] by (simp add: table_ok_def)
  show "r = HandleTable_Lookup hp t key hash"
    using res by (auto simp: HandleTable_Remove_def HandleTable_Lookup_def fp split: option.splits)
  show "table_ok hp t'" "entries t' = entries t - set_option r"
  proof -
    have "table_ok hp t' \<and> entries t' = entries t - set_option r"
    proof (cases "?j < length ?chain")
      case False
      with res have "r = None" "t' = t"
        by (simp_all add: HandleTable_Remove_def fp deref_def)
      with ok show ?thesis by simp
    next
      case True
      let ?c = "take ?j ?chain @ drop (Suc ?j) ?chain"
      from True res have r: "r = Some (?chain ! ?j)"
        and t': "t' = t\<lparr>m_list := (m_list t)[?i := ?c], m_elems := m_elems t - 1\<rparr>"
        by (simp_all add: HandleTable_Remove_def fp deref_def)
      note cd = chain_distinct [OF ok i]
      note rm = set_remove_nth [OF cd(1) True]
      from ok have pl: "\<forall>k<m_length t. \<forall>e\<in>set (m_list t ! k).
               e \<in> dom hp \<and> unat (fst (ident hp e)) AND (m_length t - 1) = k"
        and inj: "inj_on (ident hp) (entries t)" and el: "m_elems t = length (concat (m_list t))"
        and len: "length (m_list t) = m_length t"
        by (simp_all add: table_ok_def)
      have disj: "set ?c \<inter> (entries t - set ?chain) = {}" using rm(1) by auto
      have place: "\<forall>e\<in>set ?c. e \<in> dom hp \<and> unat (fst (ident hp e)) AND (m_length t - 1) = ?i"
        using pl i rm(1) by auto
      have sub: "(entries t - set ?chain) \<union> set ?c \<subseteq> entries t" using rm(1) cd(2) by auto
      have inj': "inj_on (ident hp) ((entries t - set ?chain) \<union> set ?c)"
        by (rule inj_on_subset [OF inj sub])
      have "length ?chain \<le> m_elems t" using chain_length_le [of ?i "m_list t"] i len el by simp
      with rm(3) True have n: "(m_elems t - 1) + length ?chain = m_elems t + length ?c" by simp
      note u = table_update [OF ok i rm(2) disj place inj' n]
      have "(entries t - set ?chain) \<union> set ?c = entries t - {?chain ! ?j}"
        using rm(1) cd(2) True by auto
      with u t' r show ?thesis by simp
    qed
    then show "table_ok hp t'" "entries t' = entries t - set_option r" by simp_all
  qed
qed

lemma fold_concat_eq: "fold f (concat xss) = fold (fold f) xss"
  by (induction xss) simp_all

lemma distinct_concat_nth:
  assumes "i < length l" and "distinct (concat l)"
  shows "distinct (l ! i)"
proof -
  from assms(2) have "distinct (concat (take i l) @ l ! i @ concat (drop (Suc i) l))"
    using concat_split [OF assms(1)] by simp
  then show ?thesis by simp
qed

lemma Resize_link_step:
  assumes n: "0 < n" and len: "length nl = n" and d: "distinct (concat nl)"
    and x: "x \<notin> set (concat nl)"
    and pl: "\<forall>k<n. \<forall>e\<in>set (nl ! k). unat (fst (ident hp e)) AND (n - 1) = k"
  shows "length (Resize_link hp n x nl) = n"
    and "distinct (concat (Resize_link hp n x nl))"
    and "set (concat (Resize_link hp n x nl)) = insert x (set (concat nl))"
    and "\<forall>k<n. \<forall>e\<in>set (Resize_link hp n x nl ! k). unat (fst (ident hp e)) AND (n - 1) = k"
    and "length (concat (Resize_link hp n x nl)) = Suc (length (concat nl))"
proof -
  define i where "i = unat (fst (ident hp x)) AND (n - 1)"
  define c where "c = x # nl ! i"
  have step: "Resize_link hp n x nl = nl[i := c]"
    by (simp add: Resize_link_def ident_def Let_def i_def c_def)
  have i: "i < length nl" using bucket_less [OF n] len by (simp add: i_def)
  have sub: "set (nl ! i) \<subseteq> set (concat nl)"
    using i in_concat_nth [of _ nl] by blast
  have "distinct (nl ! i)" by (rule distinct_concat_nth [OF i d])
  with x sub have dc: "distinct c" by (auto simp: c_def)
  have dj: "set c \<inter> (set (concat nl) - set (nl ! i)) = {}" using x by (auto simp: c_def)
  note u = bucket_update [OF i d dc dj]
  show "length (Resize_link hp n x nl) = n" using len by (simp add: step)
  show "distinct (concat (Resize_link hp n x nl))" using u(1) by (simp add: step)
  show "set (concat (Resize_link hp n x nl)) = insert x (set (concat nl))"
    using u(2) sub by (auto simp: step c_def)
  show "length (concat (Resize_link hp n x nl)) = Suc (length (concat nl))"
    using u(3) by (simp add: step c_def)
  show "\<forall>k<n. \<forall>e\<in>set (Resize_link hp n x nl ! k). unat (fst (ident hp e)) AND (n - 1) = k"
  proof (intro allI impI)
    fix k assume k: "k < n"
    show "\<forall>e\<in>set (Resize_link hp n x nl ! k). unat (fst (ident hp e)) AND (n - 1) = k"
    proof (cases "k = i")
      case True
      with i pl k show ?thesis by (simp add: step c_def i_def)
    next
      case False
      with k pl show ?thesis by (simp add: step)
    qed
  qed
qed

lemma Resize_link_fold:
  assumes n: "0 < n" and len: "length nl = n" and d: "distinct (concat nl)"
    and dx: "distinct xs" and disj: "set xs \<inter> set (concat nl) = {}"
    and pl: "\<forall>k<n. \<forall>e\<in>set (nl ! k). unat (fst (ident hp e)) AND (n - 1) = k"
  shows "length (fold (Resize_link hp n) xs nl) = n
       \<and> distinct (concat (fold (Resize_link hp n) xs nl))
       \<and> set (concat (fold (Resize_link hp n) xs nl)) = set (concat nl) \<union> set xs
       \<and> (\<forall>k<n. \<forall>e\<in>set (fold (Resize_link hp n) xs nl ! k). unat (fst (ident hp e)) AND (n - 1) = k)
       \<and> length (concat (fold (Resize_link hp n) xs nl)) = length (concat nl) + length xs"
  using len d dx disj pl
proof (induction xs arbitrary: nl)
  case Nil
  then show ?case by simp
next
  case (Cons x xs)
  define nl' where "nl' = Resize_link hp n x nl"
  from Cons.prems(4) have xnew: "x \<notin> set (concat nl)" by simp
  note s = Resize_link_step [OF n Cons.prems(1,2) xnew Cons.prems(5), folded nl'_def]
  have 3: "distinct xs" using Cons.prems(3) by simp
  have 4: "set xs \<inter> set (concat nl') = {}" using Cons.prems(3,4) s(3) by auto
  note ih = Cons.IH [OF s(1,2) 3 4 s(4)]
  have f: "fold (Resize_link hp n) (x # xs) nl = fold (Resize_link hp n) xs nl'"
    by (simp add: nl'_def)
  from ih have "set (concat (fold (Resize_link hp n) xs nl')) = set (concat nl) \<union> set (x # xs)"
    using s(3) by auto
  moreover from ih have "length (concat (fold (Resize_link hp n) xs nl')) = length (concat nl) + length (x # xs)"
    using s(5) by simp
  ultimately show ?case unfolding f using ih by blast
qed

lemma Resize_length_pos: "0 < n \<Longrightarrow> 0 < Resize_length n elems"
proof (induction n elems rule: Resize_length.induct)
  case (1 new_length elems)
  then show ?case by (subst Resize_length.simps) simp
qed

lemma table_okI:
  assumes "length (m_list t) = m_length t" and "0 < m_length t"
    and "m_elems t = length (concat (m_list t))" and "distinct (concat (m_list t))"
    and "\<forall>i<m_length t. \<forall>e\<in>set (m_list t ! i).
            e \<in> dom hp \<and> unat (fst (ident hp e)) AND (m_length t - 1) = i"
    and "inj_on (ident hp) (entries t)"
  shows "table_ok hp t"
  using assms by (simp add: table_ok_def)

lemma table_Resize:
  assumes ok: "table_ok hp t"
  shows "table_ok hp (HandleTable_Resize hp t)" and "entries (HandleTable_Resize hp t) = entries t"
proof -
  let ?n = "Resize_length 4 (m_elems t)"
  let ?nl = "fold (Resize_link hp ?n) (concat (m_list t)) (replicate ?n [])"
  have n: "0 < ?n" by (rule Resize_length_pos) simp
  have res: "HandleTable_Resize hp t = t\<lparr>m_list := ?nl, m_length := ?n\<rparr>"
    by (simp add: HandleTable_Resize_def Let_def fold_concat_eq)
  from ok have d: "distinct (concat (m_list t))" and el: "m_elems t = length (concat (m_list t))"
    and inj: "inj_on (ident hp) (entries t)"
    and live: "\<forall>e\<in>entries t. e \<in> dom hp"
    using entries_bucket(2) [OF ok] by (simp_all add: table_ok_def)
  have empty: "concat (replicate ?n ([] :: addr list)) = []" by (induction ?n) simp_all
  have f: "length ?nl = ?n \<and> distinct (concat ?nl)
       \<and> set (concat ?nl) = set (concat (replicate ?n [])) \<union> set (concat (m_list t))
       \<and> (\<forall>k<?n. \<forall>e\<in>set (?nl ! k). unat (fst (ident hp e)) AND (?n - 1) = k)
       \<and> length (concat ?nl) = length (concat (replicate ?n [])) + length (concat (m_list t))"
    using Resize_link_fold [OF n, where nl = "replicate ?n []" and xs = "concat (m_list t)" and hp = hp] d
    by (simp add: empty)
  then have ent: "set (concat ?nl) = entries t" and cnt: "length (concat ?nl) = m_elems t"
    using el by (simp_all add: empty entries_def)
  show "entries (HandleTable_Resize hp t) = entries t"
    using ent by (simp add: res entries_def)
  have pl: "\<forall>k<?n. \<forall>e\<in>set (?nl ! k). e \<in> dom hp \<and> unat (fst (ident hp e)) AND (?n - 1) = k"
  proof (intro allI impI ballI)
    fix k e assume k: "k < ?n" and e: "e \<in> set (?nl ! k)"
    from f k have "?nl ! k \<in> set ?nl" by simp
    with e have "e \<in> set (concat ?nl)" by auto
    with ent live have "e \<in> dom hp" by simp
    with f k e show "e \<in> dom hp \<and> unat (fst (ident hp e)) AND (?n - 1) = k" by blast
  qed
  from f have flen: "length ?nl = ?n" and fd: "distinct (concat ?nl)" by blast+
  have ent': "entries (t\<lparr>m_list := ?nl, m_length := ?n\<rparr>) = entries t"
    using ent by (simp add: entries_def)
  show "table_ok hp (HandleTable_Resize hp t)"
    unfolding res
  proof (rule table_okI)
    show "length (m_list (t\<lparr>m_list := ?nl, m_length := ?n\<rparr>)) = m_length (t\<lparr>m_list := ?nl, m_length := ?n\<rparr>)"
      using flen by simp
    show "0 < m_length (t\<lparr>m_list := ?nl, m_length := ?n\<rparr>)" using n by simp
    show "m_elems (t\<lparr>m_list := ?nl, m_length := ?n\<rparr>) = length (concat (m_list (t\<lparr>m_list := ?nl, m_length := ?n\<rparr>)))"
      using cnt by simp
    show "distinct (concat (m_list (t\<lparr>m_list := ?nl, m_length := ?n\<rparr>)))" using fd by simp
    show "\<forall>i<m_length (t\<lparr>m_list := ?nl, m_length := ?n\<rparr>).
            \<forall>e\<in>set (m_list (t\<lparr>m_list := ?nl, m_length := ?n\<rparr>) ! i).
              e \<in> dom hp \<and> unat (fst (ident hp e)) AND (m_length (t\<lparr>m_list := ?nl, m_length := ?n\<rparr>) - 1) = i"
      using pl by simp
    show "inj_on (ident hp) (entries (t\<lparr>m_list := ?nl, m_length := ?n\<rparr>))"
      using inj ent' by simp
  qed
qed

lemma table_frame:
  assumes ok: "table_ok hp t"
    and same: "\<forall>e\<in>entries t. e \<in> dom hp' \<and> ident hp' e = ident hp e"
  shows "table_ok hp' t"
proof (rule table_okI)
  from ok show "length (m_list t) = m_length t" "0 < m_length t"
    "m_elems t = length (concat (m_list t))" "distinct (concat (m_list t))"
    by (simp_all add: table_ok_def)
  show "\<forall>i<m_length t. \<forall>e\<in>set (m_list t ! i).
          e \<in> dom hp' \<and> unat (fst (ident hp' e)) AND (m_length t - 1) = i"
  proof (intro allI impI ballI)
    fix i e assume i: "i < m_length t" and e: "e \<in> set (m_list t ! i)"
    from chain_distinct(2) [OF ok i] e have "e \<in> entries t" by blast
    with same have "e \<in> dom hp'" "ident hp' e = ident hp e" by simp_all
    moreover from ok i e have "unat (fst (ident hp e)) AND (m_length t - 1) = i"
      by (simp add: table_ok_def)
    ultimately show "e \<in> dom hp' \<and> unat (fst (ident hp' e)) AND (m_length t - 1) = i" by simp
  qed
  from ok have "inj_on (ident hp) (entries t)" by (simp add: table_ok_def)
  moreover have "\<And>e. e \<in> entries t \<Longrightarrow> ident hp' e = ident hp e" using same by simp
  ultimately show "inj_on (ident hp') (entries t)" by (simp cong: inj_on_cong)
qed

lemma table_new_ok: "table_ok hp HandleTable_new" and table_new_entries: "entries HandleTable_new = {}"
proof -
  have "Resize_length 4 0 = 4" by (subst Resize_length.simps) simp
  then have new: "HandleTable_new = \<lparr>m_length = 4, m_elems = 0, m_list = [[], [], [], []]\<rparr>"
    by (simp add: HandleTable_new_def HandleTable_Resize_def Let_def numeral_eq_Suc)
  show ent: "entries HandleTable_new = {}" by (simp add: new entries_def)
  have "e \<notin> set (m_list HandleTable_new ! i)" if "i < m_length HandleTable_new" for i e
  proof
    assume "e \<in> set (m_list HandleTable_new ! i)"
    with that have "e \<in> set (concat (m_list HandleTable_new))"
      using in_concat_nth [of e "m_list HandleTable_new"] by (auto simp: new)
    then have "e \<in> entries HandleTable_new" by (simp only: entries_def)
    then show False by (simp only: ent empty_iff)
  qed
  then have empty: "\<forall>i<m_length HandleTable_new. \<forall>e\<in>set (m_list HandleTable_new ! i).
          e \<in> dom hp \<and> unat (fst (ident hp e)) AND (m_length HandleTable_new - 1) = i"
    by blast
  show "table_ok hp HandleTable_new"
    by (rule table_okI [OF _ _ _ _ empty]) (simp_all add: ent, simp_all add: new)
qed

lemma table_Insert:
  assumes ok: "table_ok hp t" and live: "h \<in> dom hp" and fresh: "h \<notin> entries t"
    and res: "HandleTable_Insert hp t h = (old, t')"
  shows "old = HandleTable_Lookup hp t (h_key (the (hp h))) (h_hash (the (hp h)))"
    and "table_ok hp t'"
    and "entries t' = insert h (entries t - set_option old)"
proof -
  let ?key = "h_key (the (hp h))" and ?hash = "h_hash (the (hp h))"
  let ?i = "unat ?hash AND (m_length t - 1)"
  let ?chain = "m_list t ! ?i"
  let ?j = "FindPointer_chain hp ?key ?hash ?chain"
  have fp: "FindPointer hp t ?key ?hash = (?i, ?j)" by (simp add: FindPointer_def Let_def)
  have idh: "ident hp h = (?hash, ?key)" by (simp add: ident_def)
  from ok have i: "?i < m_length t" using table_bucket [OF ok] by (simp add: table_ok_def)
  note cd = chain_distinct [OF ok i]
  from ok have pl: "\<forall>k<m_length t. \<forall>e\<in>set (m_list t ! k).
               e \<in> dom hp \<and> unat (fst (ident hp e)) AND (m_length t - 1) = k"
    and inj: "inj_on (ident hp) (entries t)" and el: "m_elems t = length (concat (m_list t))"
    and len: "length (m_list t) = m_length t"
    by (simp_all add: table_ok_def)
  from fresh cd(2) have hc: "h \<notin> set ?chain" by blast
  show "old = HandleTable_Lookup hp t ?key ?hash"
    using res by (auto simp: HandleTable_Insert_def HandleTable_Lookup_def fp Let_def split: option.splits)
  have "table_ok hp t' \<and> entries t' = insert h (entries t - set_option old)"
  proof (cases "?j < length ?chain")
    case True
    let ?o = "?chain ! ?j"
    let ?c = "?chain[?j := h]"
    from True res have old: "old = Some ?o" and t': "t' = t\<lparr>m_list := (m_list t)[?i := ?c]\<rparr>"
      by (simp_all add: HandleTable_Insert_def fp deref_def)
    have "\<not> ident hp ?o \<noteq> (?hash, ?key)"
      using True nth_length_takeWhile [of "\<lambda>p. ident hp p \<noteq> (?hash, ?key)" ?chain]
      by (simp add: FindPointer_chain_takeWhile)
    then have ido: "ident hp ?o = ident hp h" using idh by simp
    from True cd(2) have oe: "?o \<in> entries t" by (meson nth_mem subsetD)
    have setc: "set ?c = insert h (set ?chain - {?o})"
      by (rule set_update_distinct [OF cd(1) True])
    have dc: "distinct ?c" using cd(1) hc by (simp add: distinct_list_update)
    have disj: "set ?c \<inter> (entries t - set ?chain) = {}" using setc fresh by auto
    have place: "\<forall>e\<in>set ?c. e \<in> dom hp \<and> unat (fst (ident hp e)) AND (m_length t - 1) = ?i"
      using pl i setc live idh by auto
    have eq: "(entries t - set ?chain) \<union> set ?c = insert h (entries t - {?o})"
      using setc cd(2) True by auto
    have "inj_on (ident hp) (entries t - {?o})" by (rule inj_on_subset [OF inj]) blast
    moreover have "ident hp h \<notin> ident hp ` (entries t - {?o} - {h})"
    proof
      assume "ident hp h \<in> ident hp ` (entries t - {?o} - {h})"
      then obtain e where e: "e \<in> entries t" "e \<noteq> ?o" "ident hp e = ident hp h" by force
      from e(3) ido have "ident hp e = ident hp ?o" by simp
      from inj_onD [OF inj this e(1) oe] e(2) show False by simp
    qed
    ultimately have inj': "inj_on (ident hp) ((entries t - set ?chain) \<union> set ?c)"
      unfolding eq by (simp add: inj_on_insert)
    have n: "m_elems t + length ?chain = m_elems t + length ?c" by simp
    note u = table_update [OF ok i dc disj place inj' n]
    from u eq old t' show ?thesis by simp
  next
    case False
    let ?c = "?chain @ [h]"
    let ?t1 = "t\<lparr>m_list := (m_list t)[?i := ?c], m_elems := m_elems t + 1\<rparr>"
    from False res have old: "old = None"
      and t': "t' = (if m_elems ?t1 > m_length ?t1 then HandleTable_Resize hp ?t1 else ?t1)"
      by (auto simp: HandleTable_Insert_def fp deref_def Let_def)
    from False have look: "HandleTable_Lookup hp t ?key ?hash = None"
      by (simp add: HandleTable_Lookup_def fp deref_def)
    have none: "ident hp e \<noteq> ident hp h" if "e \<in> entries t" for e
      using look table_Lookup_iff [OF ok, of ?key ?hash e] that idh by auto
    have dc: "distinct ?c" using cd(1) hc by simp
    have disj: "set ?c \<inter> (entries t - set ?chain) = {}" using fresh by auto
    have place: "\<forall>e\<in>set ?c. e \<in> dom hp \<and> unat (fst (ident hp e)) AND (m_length t - 1) = ?i"
      using pl i live idh by auto
    have eq: "(entries t - set ?chain) \<union> set ?c = insert h (entries t)"
      using cd(2) by auto
    have "ident hp h \<notin> ident hp ` (entries t - {h})" using none by force
    with inj have inj': "inj_on (ident hp) ((entries t - set ?chain) \<union> set ?c)"
      unfolding eq by (simp add: inj_on_insert)
    have n: "(m_elems t + 1) + length ?chain = m_elems t + length ?c" by simp
    note u = table_update [OF ok i dc disj place inj' n]
    from u eq have t1: "table_ok hp ?t1" "entries ?t1 = insert h (entries t)" by simp_all
    show ?thesis
    proof (cases "m_elems ?t1 > m_length ?t1")
      case True
      with t' have "t' = HandleTable_Resize hp ?t1" by simp
      with table_Resize [OF t1(1)] t1(2) old show ?thesis by simp
    next
      case False
      with t' have "t' = ?t1" by simp
      with t1 old show ?thesis by simp
    qed
  qed
  then show "table_ok hp t'" "entries t' = insert h (entries t - set_option old)" by simp_all
qed

subsection \<open>The invariant is kept by every operation of a shard\<close>

lemma cache_invI:
  assumes "table_ok (heap s) (m_table s)"
    and "distinct (m_lru s)" and "set (m_lru s) = entries (m_table s)"
    and "dom (heap s) \<subseteq> {..<next_free s}"
    and "refs_ok s held extra" and "holders_live s held extra"
    and "m_usage s = live_charge s" and "consumption s = live_charge s"
    and "deleted_ok s"
  shows "cache_inv s held extra"
  using assms unfolding cache_inv_def by simp

lemma cache_invD:
  assumes "cache_inv s held extra"
  shows "table_ok (heap s) (m_table s)"
    and "distinct (m_lru s)" and "set (m_lru s) = entries (m_table s)"
    and "dom (heap s) \<subseteq> {..<next_free s}"
    and "refs_ok s held extra" and "holders_live s held extra"
    and "m_usage s = live_charge s" and "consumption s = live_charge s"
    and "deleted_ok s"
  using assms unfolding cache_inv_def by simp_all

lemma refs_okD:
  assumes "refs_ok s held extra" and "heap s e = Some h"
  shows "unat (h_refs h) = (if e \<in> set (m_lru s) then 1 else 0) + held e + extra e"
    and "0 < unat (h_refs h)"
  using assms unfolding refs_ok_def by blast+

lemma holders_liveD:
  assumes "holders_live s held extra" and "e \<notin> dom (heap s)"
  shows "held e = 0" and "extra e = 0"
  using assms unfolding holders_live_def by blast+

lemma cache_inv_finite:
  assumes "cache_inv s held extra"
  shows "finite (dom (heap s))"
  by (rule finite_subset [OF cache_invD(4) [OF assms]]) simp

lemma cache_inv_lru_live:
  assumes "cache_inv s held extra" and "e \<in> set (m_lru s)"
  shows "e \<in> dom (heap s)"
proof -
  from assms have "e \<in> entries (m_table s)" by (simp add: cache_invD(3))
  then show ?thesis by (rule entries_bucket(2) [OF cache_invD(1) [OF assms(1)]])
qed

lemma live_charge_free:
  assumes fin: "finite (dom (heap s))" and e: "heap s e = Some h"
    and s': "heap s' = (heap s)(e := None)"
  shows "live_charge s' = live_charge s - h_charge h"
proof -
  from e have mem: "e \<in> dom (heap s)" by blast
  have "live_charge s = h_charge (the (heap s e)) + (\<Sum>x\<in>dom (heap s) - {e}. h_charge (the (heap s x)))"
    unfolding live_charge_def by (rule sum.remove [OF fin mem])
  moreover have "(\<Sum>x\<in>dom (heap s) - {e}. h_charge (the (heap s x)))
                 = (\<Sum>x\<in>dom (heap s'). h_charge (the (heap s' x)))"
  proof (rule sum.cong)
    show "dom (heap s) - {e} = dom (heap s')" by (simp add: s')
    fix x assume "x \<in> dom (heap s')"
    then have "x \<noteq> e" by (simp add: s')
    then show "h_charge (the (heap s x)) = h_charge (the (heap s' x))" by (simp add: s')
  qed
  ultimately show ?thesis using e by (simp add: live_charge_def)
qed

lemma live_charge_update:
  assumes e: "heap s e = Some h" and s': "heap s' = (heap s)(e \<mapsto> h')" and c: "h_charge h' = h_charge h"
  shows "live_charge s' = live_charge s"
  unfolding live_charge_def
proof (rule sum.cong)
  from e have "e \<in> dom (heap s)" by blast
  then show "dom (heap s') = dom (heap s)" by (simp add: s' insert_absorb)
  fix x assume "x \<in> dom (heap s)"
  show "h_charge (the (heap s' x)) = h_charge (the (heap s x))"
    using e c by (simp add: s')
qed

lemma live_charge_alloc:
  assumes fin: "finite (dom (heap s))" and e: "heap s e = None"
    and s': "heap s' = (heap s)(e \<mapsto> h)"
  shows "live_charge s' = live_charge s + h_charge h"
proof -
  have d: "dom (heap s') = insert e (dom (heap s))" by (simp add: s')
  from e have new: "e \<notin> dom (heap s)" by (simp add: domIff)
  have "live_charge s' = h_charge (the (heap s' e)) + (\<Sum>x\<in>dom (heap s). h_charge (the (heap s' x)))"
    unfolding live_charge_def d by (rule sum.insert [OF fin new])
  moreover have "(\<Sum>x\<in>dom (heap s). h_charge (the (heap s' x))) = (\<Sum>x\<in>dom (heap s). h_charge (the (heap s x)))"
  proof (rule sum.cong)
    fix x assume "x \<in> dom (heap s)"
    with new have "x \<noteq> e" by blast
    then show "h_charge (the (heap s' x)) = h_charge (the (heap s x))" by (simp add: s')
  qed simp
  ultimately show ?thesis by (simp add: live_charge_def s')
qed

lemma Unref_free:
  assumes "heap s e = Some h" and "h_refs h = 1"
  shows "Unref s e = s\<lparr>m_usage := m_usage s - h_charge h,
                        deleted := deleted s @ [(e, h_deleter h, h_key h, h_value h)],
                        consumption := consumption s - h_charge h,
                        heap := (heap s)(e := None)\<rparr>"
  using assms by (simp add: Unref_def)

lemma Unref_keep:
  assumes "heap s e = Some h" and "h_refs h \<noteq> 1"
  shows "Unref s e = s\<lparr>heap := (heap s)(e \<mapsto> h\<lparr>h_refs := h_refs h - 1\<rparr>)\<rparr>"
  using assms by (simp add: Unref_def word_le_0_iff)

lemma Unref_inv:
  assumes inv: "cache_inv s held extra" and x: "0 < extra e"
  shows "cache_inv (Unref s e) held (extra(e := extra e - 1))"
proof -
  note d = cache_invD [OF inv]
  have live: "e \<in> dom (heap s)"
  proof (rule ccontr)
    assume "e \<notin> dom (heap s)"
    from holders_liveD(2) [OF d(6) this] x show False by simp
  qed
  then obtain h where h: "heap s e = Some h" by blast
  note r = refs_okD [OF d(5) h]
  from r(2) have nz: "h_refs h \<noteq> 0" by (simp add: unat_gt_0)
  have dec: "unat (h_refs h - 1) = unat (h_refs h) - 1" by (rule unat_minus_one [OF nz])
  have fin: "finite (dom (heap s))" by (rule cache_inv_finite [OF inv])
  have ent_live: "y \<in> dom (heap s)" if "y \<in> entries (m_table s)" for y
    using that by (rule entries_bucket(2) [OF d(1)])
  show ?thesis
  proof (cases "h_refs h = 1")
    case True
    let ?s' = "s\<lparr>m_usage := m_usage s - h_charge h,
                  deleted := deleted s @ [(e, h_deleter h, h_key h, h_value h)],
                  consumption := consumption s - h_charge h,
                  heap := (heap s)(e := None)\<rparr>"
    have U: "Unref s e = ?s'" by (rule Unref_free [OF h True])
    from r(1) True x have notin: "e \<notin> set (m_lru s)" and he: "held e = 0" and xe: "extra e = 1"
      by (simp_all split: if_splits)
    have lc: "live_charge ?s' = live_charge s - h_charge h"
      by (rule live_charge_free [OF fin h]) simp
    show ?thesis
      unfolding U
    proof (rule cache_invI)
      show "table_ok (heap ?s') (m_table ?s')"
      proof -
        have "\<forall>y\<in>entries (m_table s). y \<in> dom ((heap s)(e := None)) \<and> ident ((heap s)(e := None)) y = ident (heap s) y"
        proof
          fix y assume y: "y \<in> entries (m_table s)"
          with notin d(3) have "y \<noteq> e" by blast
          with ent_live [OF y] show "y \<in> dom ((heap s)(e := None)) \<and> ident ((heap s)(e := None)) y = ident (heap s) y"
            by (simp add: ident_def)
        qed
        from table_frame [OF d(1) this] show ?thesis by simp
      qed
      show "distinct (m_lru ?s')" using d(2) by simp
      show "set (m_lru ?s') = entries (m_table ?s')" using d(3) by simp
      show "dom (heap ?s') \<subseteq> {..<next_free ?s'}" using d(4) by auto
      show "refs_ok ?s' held (extra(e := extra e - 1))"
        unfolding refs_ok_def
      proof (intro allI impI)
        fix y hy assume "heap ?s' y = Some hy"
        then have "y \<noteq> e" "heap s y = Some hy" by (simp_all split: if_splits)
        with refs_okD [OF d(5) this(2)]
        show "unat (h_refs hy) = (if y \<in> set (m_lru ?s') then 1 else 0) + held y + (extra(e := extra e - 1)) y
              \<and> 0 < unat (h_refs hy)"
          by simp
      qed
      show "holders_live ?s' held (extra(e := extra e - 1))"
        unfolding holders_live_def
      proof (intro allI impI)
        fix y assume y: "y \<notin> dom (heap ?s')"
        show "held y = 0 \<and> (extra(e := extra e - 1)) y = 0"
        proof (cases "y = e")
          case True
          with he xe show ?thesis by simp
        next
          case False
          with y have "y \<notin> dom (heap s)" by simp
          from holders_liveD [OF d(6) this] False show ?thesis by simp
        qed
      qed
      show "m_usage ?s' = live_charge ?s'" using d(7) lc by simp
      show "consumption ?s' = live_charge ?s'" using d(8) lc by simp
      show "deleted_ok ?s'"
      proof -
        from d(9) have dd: "distinct (map fst (deleted s))"
          and df: "fst ` set (deleted s) = {..<next_free s} - dom (heap s)"
          by (simp_all add: deleted_ok_def)
        from df live have "e \<notin> fst ` set (deleted s)" by blast
        with dd have 1: "distinct (map fst (deleted ?s'))" by simp
        from live d(4) have "e < next_free s" by blast
        with df have 2: "fst ` set (deleted ?s') = {..<next_free ?s'} - dom (heap ?s')"
          by auto
        from 1 2 show ?thesis by (simp only: deleted_ok_def simp_thms)
      qed
    qed
  next
    case False
    let ?h' = "h\<lparr>h_refs := h_refs h - 1\<rparr>"
    let ?s' = "s\<lparr>heap := (heap s)(e \<mapsto> ?h')\<rparr>"
    have U: "Unref s e = ?s'" by (rule Unref_keep [OF h False])
    have domeq: "dom (heap ?s') = dom (heap s)" using live by (simp add: insert_absorb)
    have lc: "live_charge ?s' = live_charge s"
      by (rule live_charge_update [OF h, where h' = ?h']) simp_all
    have "unat (h_refs h) \<noteq> 1"
    proof
      assume "unat (h_refs h) = 1"
      then have "unat (h_refs h) = unat (1 :: 32 word)" by simp
      then have "h_refs h = 1" by (simp only: word_unat_eq_iff)
      with False show False by simp
    qed
    with r(2) have big: "1 < unat (h_refs h)" by simp
    show ?thesis
      unfolding U
    proof (rule cache_invI)
      show "table_ok (heap ?s') (m_table ?s')"
      proof -
        have "\<forall>y\<in>entries (m_table s). y \<in> dom ((heap s)(e \<mapsto> ?h')) \<and> ident ((heap s)(e \<mapsto> ?h')) y = ident (heap s) y"
        proof
          fix y assume y: "y \<in> entries (m_table s)"
          with ent_live [OF y] h show "y \<in> dom ((heap s)(e \<mapsto> ?h')) \<and> ident ((heap s)(e \<mapsto> ?h')) y = ident (heap s) y"
            by (simp add: ident_def)
        qed
        from table_frame [OF d(1) this] show ?thesis by simp
      qed
      show "distinct (m_lru ?s')" using d(2) by simp
      show "set (m_lru ?s') = entries (m_table ?s')" using d(3) by simp
      show "dom (heap ?s') \<subseteq> {..<next_free ?s'}" using d(4) domeq by simp
      show "refs_ok ?s' held (extra(e := extra e - 1))"
        unfolding refs_ok_def
      proof (intro allI impI)
        fix y hy assume a: "heap ?s' y = Some hy"
        show "unat (h_refs hy) = (if y \<in> set (m_lru ?s') then 1 else 0) + held y + (extra(e := extra e - 1)) y
              \<and> 0 < unat (h_refs hy)"
        proof (cases "y = e")
          case True
          with a have "hy = ?h'" by simp
          with True r(1) dec big x show ?thesis by simp
        next
          case False
          with a have "heap s y = Some hy" by simp
          from refs_okD [OF d(5) this] False show ?thesis by simp
        qed
      qed
      show "holders_live ?s' held (extra(e := extra e - 1))"
        unfolding holders_live_def
      proof (intro allI impI)
        fix y assume y: "y \<notin> dom (heap ?s')"
        then have "y \<noteq> e" "y \<notin> dom (heap s)" by simp_all
        from holders_liveD [OF d(6) this(2)] this(1)
        show "held y = 0 \<and> (extra(e := extra e - 1)) y = 0" by simp
      qed
      show "m_usage ?s' = live_charge ?s'" using d(7) lc by simp
      show "consumption ?s' = live_charge ?s'" using d(8) lc by simp
      show "deleted_ok ?s'" using d(9) domeq by (simp add: deleted_ok_def)
    qed
  qed
qed

lemma Remove_own_key:
  assumes ok: "table_ok hp t" and o: "old \<in> entries t"
  shows "fst (HandleTable_Remove hp t (h_key (the (hp old))) (h_hash (the (hp old)))) = Some old"
proof -
  obtain r t' where res: "HandleTable_Remove hp t (h_key (the (hp old))) (h_hash (the (hp old))) = (r, t')"
    by (cases "HandleTable_Remove hp t (h_key (the (hp old))) (h_hash (the (hp old)))")
  have "HandleTable_Lookup hp t (h_key (the (hp old))) (h_hash (the (hp old))) = Some old"
    using table_Lookup_iff [OF ok, of "h_key (the (hp old))" "h_hash (the (hp old))" old] o
    by (simp add: ident_def)
  with table_Remove(1) [OF ok res] res show ?thesis by simp
qed

lemma uncache_inv:
  assumes inv: "cache_inv s held extra"
    and res: "HandleTable_Remove (heap s) (m_table s) key hash = (Some old, t')"
  shows "cache_inv (s\<lparr>m_lru := remove1 old (m_lru s), m_table := t'\<rparr>) held (extra(old := extra old + 1))"
    and "old \<in> set (m_lru s)"
proof -
  note d = cache_invD [OF inv]
  note rm = table_Remove [OF d(1) res]
  from rm(1) table_Lookup_iff [OF d(1), of key hash old] have oe: "old \<in> entries (m_table s)"
    by simp
  with d(3) show ol: "old \<in> set (m_lru s)" by simp
  let ?s' = "s\<lparr>m_lru := remove1 old (m_lru s), m_table := t'\<rparr>"
  show "cache_inv ?s' held (extra(old := extra old + 1))"
  proof (rule cache_invI)
    show "table_ok (heap ?s') (m_table ?s')" using rm(2) by simp
    show "distinct (m_lru ?s')" using d(2) by simp
    show "set (m_lru ?s') = entries (m_table ?s')" using rm(3) d(2,3) by simp
    show "dom (heap ?s') \<subseteq> {..<next_free ?s'}" using d(4) by simp
    show "refs_ok ?s' held (extra(old := extra old + 1))"
      unfolding refs_ok_def
    proof (intro allI impI)
      fix y hy assume "heap ?s' y = Some hy"
      then have a: "heap s y = Some hy" by simp
      from refs_okD [OF d(5) a] ol d(2)
      show "unat (h_refs hy) = (if y \<in> set (m_lru ?s') then 1 else 0) + held y + (extra(old := extra old + 1)) y
            \<and> 0 < unat (h_refs hy)"
        by (cases "y = old") simp_all
    qed
    show "holders_live ?s' held (extra(old := extra old + 1))"
      unfolding holders_live_def
    proof (intro allI impI)
      fix y assume y: "y \<notin> dom (heap ?s')"
      then have y': "y \<notin> dom (heap s)" by simp
      with cache_inv_lru_live [OF inv ol] have "y \<noteq> old" by blast
      with holders_liveD [OF d(6) y']
      show "held y = 0 \<and> (extra(old := extra old + 1)) y = 0" by simp
    qed
    show "m_usage ?s' = live_charge ?s'" using d(7) by (simp add: live_charge_def)
    show "consumption ?s' = live_charge ?s'" using d(8) by (simp add: live_charge_def)
    show "deleted_ok ?s'" using d(9) by (simp add: deleted_ok_def)
  qed
qed

lemma fun_upd_inc_dec: "(extra(old := extra old + 1))(old := (extra(old := extra old + 1)) old - 1) = (extra :: addr \<Rightarrow> nat)"
  by (rule ext) simp

lemma drop_cached_inv:
  assumes inv: "cache_inv s held extra"
    and res: "HandleTable_Remove (heap s) (m_table s) key hash = (Some old, t')"
  shows "cache_inv (Unref (s\<lparr>m_lru := remove1 old (m_lru s), m_table := t'\<rparr>) old) held extra"
proof -
  note u = uncache_inv(1) [OF inv res]
  have "0 < (extra(old := extra old + 1)) old" by simp
  from Unref_inv [OF u this] show ?thesis by (simp only: fun_upd_inc_dec)
qed

lemma evict_oldest_inv:
  assumes inv: "cache_inv s held extra" and ne: "m_lru s \<noteq> []"
  shows "cache_inv (evict_oldest s (hd (m_lru s))) held extra"
proof -
  let ?old = "hd (m_lru s)"
  note d = cache_invD [OF inv]
  from ne have "?old \<in> set (m_lru s)" by simp
  with d(3) have oe: "?old \<in> entries (m_table s)" by simp
  obtain r t' where res: "HandleTable_Remove (heap s) (m_table s) (h_key (the (heap s ?old))) (h_hash (the (heap s ?old))) = (r, t')"
    by (cases "HandleTable_Remove (heap s) (m_table s) (h_key (the (heap s ?old))) (h_hash (the (heap s ?old)))")
  with Remove_own_key [OF d(1) oe] have r: "r = Some ?old" by simp
  have "evict_oldest s ?old = Unref (s\<lparr>m_lru := remove1 ?old (m_lru s), m_table := t'\<rparr>) ?old"
    using res by (simp add: evict_oldest_def LRU_Remove_def)
  with drop_cached_inv [OF inv res [unfolded r]] show ?thesis by simp
qed

lemma m_capacity_Unref [simp]: "m_capacity (Unref s e) = m_capacity s"
  by (simp add: Unref_def Let_def)

lemma m_capacity_evict_oldest [simp]: "m_capacity (evict_oldest s e) = m_capacity s"
  by (simp add: evict_oldest_def LRU_Remove_def Let_def)

lemma evict_inv:
  "cache_inv s held extra \<Longrightarrow> cache_inv (evict s) held extra"
proof (induction s rule: evict.induct)
  case (1 s)
  show ?case
  proof (cases "m_usage s > m_capacity s \<and> m_lru s \<noteq> []")
    case True
    then have "evict s = evict (evict_oldest s (hd (m_lru s)))" using evict.simps [of s] by auto
    with "1.IH" [OF True evict_oldest_inv [OF "1.prems"]] True show ?thesis by simp
  next
    case False
    then have "evict s = s" using evict.simps [of s] by auto
    with "1.prems" show ?thesis by simp
  qed
qed

lemma evict_post:
  "m_capacity (evict s) = m_capacity s
   \<and> \<not> (m_usage (evict s) > m_capacity (evict s) \<and> m_lru (evict s) \<noteq> [])"
proof (induction s rule: evict.induct)
  case (1 s)
  show ?case
  proof (cases "m_usage s > m_capacity s \<and> m_lru s \<noteq> []")
    case True
    then have "evict s = evict (evict_oldest s (hd (m_lru s)))" using evict.simps [of s] by auto
    with "1.IH" [OF True] show ?thesis by simp
  next
    case False
    then have "evict s = s" using evict.simps [of s] by auto
    with False show ?thesis by simp
  qed
qed

lemma heap_le_refl: "heap_le hp hp"
  by (simp add: heap_le_def)

lemma heap_le_trans:
  assumes "heap_le hp2 hp1" and "heap_le hp1 hp0"
  shows "heap_le hp2 hp0"
  unfolding heap_le_def
proof (intro allI impI)
  fix a h2 assume "hp2 a = Some h2"
  with assms(1) obtain h1 where 1: "hp1 a = Some h1" "h2 = h1\<lparr>h_refs := h_refs h2\<rparr>"
    unfolding heap_le_def by blast
  with assms(2) obtain h0 where 0: "hp0 a = Some h0" "h1 = h0\<lparr>h_refs := h_refs h1\<rparr>"
    unfolding heap_le_def by blast
  from 1(2) 0(2) have "h2 = h0\<lparr>h_refs := h_refs h2\<rparr>"
    by (cases h0, cases h1, cases h2) simp
  with 0(1) show "\<exists>h. hp0 a = Some h \<and> h2 = h\<lparr>h_refs := h_refs h2\<rparr>" by blast
qed

lemma heap_leD:
  assumes "heap_le hp' hp" and "hp' a = Some h'"
  shows "a \<in> dom hp" and "h_charge (the (hp a)) = h_charge h'"
proof -
  from assms obtain h where h: "hp a = Some h" "h' = h\<lparr>h_refs := h_refs h'\<rparr>"
    unfolding heap_le_def by blast
  from h(1) show "a \<in> dom hp" by blast
  from h(2) have "h_charge h' = h_charge h" by (cases h, cases h') simp
  with h(1) show "h_charge (the (hp a)) = h_charge h'" by simp
qed

lemma Unref_heap_le:
  assumes "heap s x = Some hx"
  shows "heap_le (heap (Unref s x)) (heap s)"
  using assms by (auto simp: heap_le_def Unref_def Let_def split: if_splits)

lemma evict_oldest_heap_le:
  assumes "heap s old = Some h"
  shows "heap_le (heap (evict_oldest s old)) (heap s)"
proof -
  let ?s2 = "(LRU_Remove s old)\<lparr>m_table := snd (HandleTable_Remove (heap (LRU_Remove s old))
                (m_table (LRU_Remove s old)) (h_key (the (heap (LRU_Remove s old) old)))
                (h_hash (the (heap (LRU_Remove s old) old))))\<rparr>"
  have hp: "heap ?s2 = heap s" by (simp add: LRU_Remove_def)
  with assms have "heap ?s2 old = Some h" by simp
  from Unref_heap_le [OF this] hp show ?thesis
    by (simp add: evict_oldest_def Let_def)
qed

lemma evict_heap_le:
  "cache_inv s held extra \<Longrightarrow> heap_le (heap (evict s)) (heap s)"
proof (induction s rule: evict.induct)
  case (1 s)
  show ?case
  proof (cases "m_usage s > m_capacity s \<and> m_lru s \<noteq> []")
    case True
    then have ev: "evict s = evict (evict_oldest s (hd (m_lru s)))" using evict.simps [of s] by auto
    from True have "hd (m_lru s) \<in> set (m_lru s)" by simp
    with cache_inv_lru_live [OF "1.prems"] obtain h where h: "heap s (hd (m_lru s)) = Some h" by blast
    from True have ne: "m_lru s \<noteq> []" by simp
    note step = evict_oldest_heap_le [OF h]
    note rest = "1.IH" [OF True evict_oldest_inv [OF "1.prems" ne]]
    from heap_le_trans [OF rest step] ev show ?thesis by simp
  next
    case False
    then have "evict s = s" using evict.simps [of s] by auto
    then show ?thesis by (simp add: heap_le_refl)
  qed
qed

lemma Insert_core:
  fixes s :: LRUCache and hnew :: LRUHandle
  defines "e \<equiv> next_free s"
  defines "s4 \<equiv> s\<lparr>heap := (heap s)(e \<mapsto> hnew), next_free := Suc e,
                    consumption := consumption s + h_charge hnew,
                    m_lru := m_lru s @ [e], m_usage := m_usage s + h_charge hnew\<rparr>"
  assumes inv: "cache_inv s held (\<lambda>x. 0)" and two: "h_refs hnew = 2"
    and res: "HandleTable_Insert (heap s4) (m_table s4) e = (old, t')"
  shows "old = None \<Longrightarrow> cache_inv (s4\<lparr>m_table := t'\<rparr>) (held(e := held e + 1)) (\<lambda>x. 0)"
    and "old = Some old' \<Longrightarrow>
           cache_inv (LRU_Remove (s4\<lparr>m_table := t'\<rparr>) old') (held(e := held e + 1)) ((\<lambda>x. 0)(old' := 1))"
proof -
  note d = cache_invD [OF inv]
  have fin: "finite (dom (heap s))" by (rule cache_inv_finite [OF inv])
  from d(4) have enew: "e \<notin> dom (heap s)" by (auto simp: e_def)
  then have hnone: "heap s e = None" by (simp add: domIff)
  from holders_liveD(1) [OF d(6) enew] have held0: "held e = 0" .
  have elru: "e \<notin> set (m_lru s)" using cache_inv_lru_live [OF inv] enew by blast
  with d(3) have eent: "e \<notin> entries (m_table s)" by simp
  have hp4: "heap s4 = (heap s)(e \<mapsto> hnew)" and t4: "m_table s4 = m_table s"
    and lru4: "m_lru s4 = m_lru s @ [e]" and nf4: "next_free s4 = Suc e"
    and us4: "m_usage s4 = m_usage s + h_charge hnew"
    and co4: "consumption s4 = consumption s + h_charge hnew"
    and de4: "deleted s4 = deleted s"
    by (simp_all add: s4_def)
  have same: "\<forall>y\<in>entries (m_table s). y \<in> dom (heap s4) \<and> ident (heap s4) y = ident (heap s) y"
  proof
    fix y assume y: "y \<in> entries (m_table s)"
    with eent have "y \<noteq> e" by blast
    with entries_bucket(2) [OF d(1) y]
    show "y \<in> dom (heap s4) \<and> ident (heap s4) y = ident (heap s) y"
      by (simp add: hp4 ident_def)
  qed
  have ok4: "table_ok (heap s4) (m_table s)" by (rule table_frame [OF d(1) same])
  have live4: "e \<in> dom (heap s4)" by (simp add: hp4)
  note ti = table_Insert [OF ok4 live4 eent res [unfolded t4]]
  have lc: "live_charge s4 = live_charge s + h_charge hnew"
    by (rule live_charge_alloc [OF fin hnone hp4])
  have dom4: "dom (heap s4) = insert e (dom (heap s))" by (simp add: hp4)
  have del4: "deleted_ok s4"
  proof -
    from d(9) have "distinct (map fst (deleted s))"
      and df: "fst ` set (deleted s) = {..<next_free s} - dom (heap s)"
      by (simp_all add: deleted_ok_def)
    moreover have "{..<next_free s} - dom (heap s) = {..<Suc e} - insert e (dom (heap s))"
      by (auto simp: e_def)
    ultimately show ?thesis by (simp add: deleted_ok_def de4 nf4 dom4)
  qed
  have holders: "holders_live s4 (held(e := held e + 1)) X" if "\<forall>y. y \<notin> dom (heap s4) \<longrightarrow> X y = 0" for X
    unfolding holders_live_def
  proof (intro allI impI)
    fix y assume y: "y \<notin> dom (heap s4)"
    then have "y \<noteq> e" "y \<notin> dom (heap s)" by (simp_all add: dom4)
    with holders_liveD(1) [OF d(6) this(2)] that y
    show "(held(e := held e + 1)) y = 0 \<and> X y = 0" by simp
  qed
  {
    assume none: "old = None"
    let ?s5 = "s4\<lparr>m_table := t'\<rparr>"
    show "cache_inv ?s5 (held(e := held e + 1)) (\<lambda>x. 0)"
    proof (rule cache_invI)
      show "table_ok (heap ?s5) (m_table ?s5)" using ti(2) by simp
      show "distinct (m_lru ?s5)" using d(2) elru by (simp add: lru4)
      show "set (m_lru ?s5) = entries (m_table ?s5)" using ti(3) none d(3) by (simp add: lru4)
      show "dom (heap ?s5) \<subseteq> {..<next_free ?s5}" using d(4) by (auto simp: dom4 nf4 e_def)
      show "refs_ok ?s5 (held(e := held e + 1)) (\<lambda>x. 0)"
        unfolding refs_ok_def
      proof (intro allI impI)
        fix y hy assume a: "heap ?s5 y = Some hy"
        show "unat (h_refs hy) = (if y \<in> set (m_lru ?s5) then 1 else 0) + (held(e := held e + 1)) y + 0
              \<and> 0 < unat (h_refs hy)"
        proof (cases "y = e")
          case True
          with a have "hy = hnew" by (simp add: hp4)
          with True two held0 show ?thesis by (simp add: lru4)
        next
          case False
          with a have "heap s y = Some hy" by (simp add: hp4)
          from refs_okD [OF d(5) this] False show ?thesis by (simp add: lru4)
        qed
      qed
      show "holders_live ?s5 (held(e := held e + 1)) (\<lambda>x. 0)"
        using holders [of "\<lambda>x. 0"] by (simp add: holders_live_def)
      show "m_usage ?s5 = live_charge ?s5" using d(7) lc by (simp add: us4 live_charge_def)
      show "consumption ?s5 = live_charge ?s5" using d(8) lc by (simp add: co4 live_charge_def)
      show "deleted_ok ?s5" using del4 by (simp add: deleted_ok_def)
    qed
  }
  {
    assume some: "old = Some old'"
    let ?s5 = "LRU_Remove (s4\<lparr>m_table := t'\<rparr>) old'"
    from ti(1) some table_Lookup_iff [OF ok4, of "h_key (the (heap s4 e))" "h_hash (the (heap s4 e))" old']
    have oe: "old' \<in> entries (m_table s)" by simp
    with eent have one: "old' \<noteq> e" by blast
    from oe d(3) have ol: "old' \<in> set (m_lru s)" by simp
    have lru5: "m_lru ?s5 = remove1 old' (m_lru s) @ [e]"
      using ol by (simp add: LRU_Remove_def lru4 remove1_append)
    have hp5: "heap ?s5 = heap s4" and tb5: "m_table ?s5 = t'" and nf5: "next_free ?s5 = Suc e"
      and us5: "m_usage ?s5 = m_usage s + h_charge hnew"
      and co5: "consumption ?s5 = consumption s + h_charge hnew"
      and de5: "deleted ?s5 = deleted s"
      by (simp_all add: LRU_Remove_def s4_def)
    have olive: "old' \<in> dom (heap s4)" using same oe by blast
    show "cache_inv ?s5 (held(e := held e + 1)) ((\<lambda>x. 0)(old' := 1))"
    proof (rule cache_invI)
      show "table_ok (heap ?s5) (m_table ?s5)" using ti(2) by (simp add: hp5 tb5)
      show "distinct (m_lru ?s5)" using d(2) elru by (simp add: lru5)
      show "set (m_lru ?s5) = entries (m_table ?s5)"
        using ti(3) some d(2,3) by (auto simp: lru5 tb5)
      show "dom (heap ?s5) \<subseteq> {..<next_free ?s5}"
        using d(4) by (auto simp: hp5 dom4 nf5 e_def)
      show "refs_ok ?s5 (held(e := held e + 1)) ((\<lambda>x. 0)(old' := 1))"
        unfolding refs_ok_def
      proof (intro allI impI)
        fix y hy assume a: "heap ?s5 y = Some hy"
        show "unat (h_refs hy) = (if y \<in> set (m_lru ?s5) then 1 else 0) + (held(e := held e + 1)) y
                 + ((\<lambda>x. 0)(old' := 1)) y
              \<and> 0 < unat (h_refs hy)"
        proof (cases "y = e")
          case True
          with a have "hy = hnew" by (simp add: hp5 hp4)
          with True two held0 one show ?thesis by (simp add: lru5)
        next
          case False
          with a have "heap s y = Some hy" by (simp add: hp5 hp4)
          from refs_okD [OF d(5) this] False ol d(2) show ?thesis
            by (cases "y = old'") (simp_all add: lru5)
        qed
      qed
      show "holders_live ?s5 (held(e := held e + 1)) ((\<lambda>x. 0)(old' := 1))"
      proof -
        have "\<forall>y. y \<notin> dom (heap s4) \<longrightarrow> ((\<lambda>x. 0)(old' := 1 :: nat)) y = 0"
          using olive by auto
        from holders [OF this] show ?thesis by (simp add: holders_live_def hp5)
      qed
      show "m_usage ?s5 = live_charge ?s5"
        using d(7) lc by (simp add: us5 live_charge_def hp5)
      show "consumption ?s5 = live_charge ?s5"
        using d(8) lc by (simp add: co5 live_charge_def hp5)
      show "deleted_ok ?s5" using del4 by (simp add: deleted_ok_def de5 de4 nf5 nf4 hp5)
    qed
  }
qed

lemma fun_upd_one_zero: "((\<lambda>x. 0)(old := 1 :: nat))(old := ((\<lambda>x. 0)(old := 1 :: nat)) old - 1) = (\<lambda>x. 0)"
  by (rule ext) simp

lemma Insert_inv:
  assumes inv: "cache_inv s held (\<lambda>x. 0)"
    and res: "LRUCache_Insert s key hash val charge deleter = (e, s')"
  shows "cache_inv s' (held(e := held e + 1)) (\<lambda>x. 0)"
    and "e = next_free s"
    and "m_capacity s' = m_capacity s"
    and "\<not> (m_usage s' > m_capacity s' \<and> m_lru s' \<noteq> [])"
    and "heap_le (heap s') ((heap s)(e \<mapsto> \<lparr>h_value = val, h_deleter = deleter, h_charge = charge,
                                              h_key = key, h_refs = 2, h_hash = hash\<rparr>))"
proof -
  let ?hnew = "\<lparr>h_value = val, h_deleter = deleter, h_charge = charge,
                 h_key = key, h_refs = 2, h_hash = hash\<rparr>"
  let ?e = "next_free s"
  let ?s4 = "s\<lparr>heap := (heap s)(?e \<mapsto> ?hnew), next_free := Suc ?e,
                consumption := consumption s + h_charge ?hnew,
                m_lru := m_lru s @ [?e], m_usage := m_usage s + h_charge ?hnew\<rparr>"
  obtain old t' where ins: "HandleTable_Insert (heap ?s4) (m_table ?s4) ?e = (old, t')"
    by (cases "HandleTable_Insert (heap ?s4) (m_table ?s4) ?e")
  let ?s6 = "case old of None \<Rightarrow> ?s4\<lparr>m_table := t'\<rparr>
             | Some old' \<Rightarrow> Unref (LRU_Remove (?s4\<lparr>m_table := t'\<rparr>) old') old'"
  have s4: "(LRU_Append (s\<lparr>heap := (heap s)(?e \<mapsto> ?hnew), next_free := Suc ?e\<rparr>
                           \<lparr>consumption := consumption s + charge\<rparr>) ?e)
               \<lparr>m_usage := m_usage s + charge\<rparr> = ?s4"
    by (cases s) (simp add: LRU_Append_def)
  have unfold: "LRUCache_Insert s key hash val charge deleter = (?e, evict ?s6)"
    using ins unfolding LRUCache_Insert_def Let_def
    by (simp add: s4 [simplified] LRU_Append_def split: option.splits)
  with res have e: "e = ?e" and s': "s' = evict ?s6" by simp_all
  show "e = next_free s" by (rule e)
  have two: "h_refs ?hnew = 2" by simp
  note core = Insert_core [OF inv two ins]
  have inv6: "cache_inv ?s6 (held(?e := held ?e + 1)) (\<lambda>x. 0)"
  proof (cases old)
    case None
    with core(1) show ?thesis by simp
  next
    case (Some old')
    have "0 < ((\<lambda>x. 0)(old' := 1 :: nat)) old'" by simp
    from Unref_inv [OF core(2) [OF Some] this] Some show ?thesis
      by (simp only: fun_upd_one_zero option.case)
  qed
  from evict_inv [OF inv6] show "cache_inv s' (held(e := held e + 1)) (\<lambda>x. 0)"
    by (simp only: e s')
  have cap6: "m_capacity ?s6 = m_capacity s"
    by (cases old) (simp_all add: LRU_Remove_def)
  have ep: "m_capacity (evict ?s6) = m_capacity ?s6"
    using evict_post [of ?s6] by (rule conjunct1)
  show "m_capacity s' = m_capacity s"
    unfolding s' using ep cap6 by (rule trans)
  show "\<not> (m_usage s' > m_capacity s' \<and> m_lru s' \<noteq> [])"
    unfolding s' using evict_post [of ?s6] by (rule conjunct2)
  have hp4: "heap ?s4 = (heap s)(?e \<mapsto> ?hnew)" by simp
  have le6: "heap_le (heap ?s6) (heap ?s4)"
  proof (cases old)
    case None
    then show ?thesis by (simp add: heap_le_refl)
  next
    case (Some old')
    let ?s5 = "LRU_Remove (?s4\<lparr>m_table := t'\<rparr>) old'"
    have "old' \<in> dom (heap ?s5)"
    proof (rule ccontr)
      assume "old' \<notin> dom (heap ?s5)"
      from holders_liveD(2) [OF cache_invD(6) [OF core(2) [OF Some]] this] show False by simp
    qed
    then obtain ho where "heap ?s5 old' = Some ho" by blast
    from Unref_heap_le [OF this] have "heap_le (heap (Unref ?s5 old')) (heap ?s4)"
      by (simp add: LRU_Remove_def)
    with Some show ?thesis by simp
  qed
  from heap_le_trans [OF evict_heap_le [OF inv6] le6]
  show "heap_le (heap s') ((heap s)(e \<mapsto> ?hnew))"
    unfolding s' e hp4 .
qed

lemma Lookup_inv:
  assumes inv: "cache_inv s held (\<lambda>x. 0)"
    and res: "LRUCache_Lookup s key hash = (Some e, s')"
    and room: "held e + 2 < 2 ^ 32"
  shows "cache_inv s' (held(e := held e + 1)) (\<lambda>x. 0)"
proof -
  note d = cache_invD [OF inv]
  from res have look: "HandleTable_Lookup (heap s) (m_table s) key hash = Some e"
    by (auto simp: LRUCache_Lookup_def Let_def split: option.splits)
  with table_Lookup_iff [OF d(1), of key hash e] have ee: "e \<in> entries (m_table s)" by simp
  with d(3) have el: "e \<in> set (m_lru s)" by simp
  from cache_inv_lru_live [OF inv el] obtain h where h: "heap s e = Some h" by blast
  let ?h' = "h\<lparr>h_refs := h_refs h + 1\<rparr>"
  have s': "s' = s\<lparr>heap := (heap s)(e \<mapsto> ?h'), m_lru := remove1 e (m_lru s) @ [e]\<rparr>"
    using res look h by (cases s) (auto simp: LRUCache_Lookup_def Let_def LRU_Append_def LRU_Remove_def)
  note r = refs_okD [OF d(5) h]
  from r(1) el room have small: "unat (h_refs h) + unat (1 :: 32 word) < 2 ^ LENGTH(32)" by simp
  have inc: "unat (h_refs h + 1) = unat (h_refs h) + 1"
    using unat_add_lem [THEN iffD1, OF small] by simp
  have domeq: "dom ((heap s)(e \<mapsto> ?h')) = dom (heap s)" using h by (auto simp: insert_absorb)
  show ?thesis
    unfolding s'
  proof (rule cache_invI)
    let ?s' = "s\<lparr>heap := (heap s)(e \<mapsto> ?h'), m_lru := remove1 e (m_lru s) @ [e]\<rparr>"
    show "table_ok (heap ?s') (m_table ?s')"
    proof -
      have "\<forall>y\<in>entries (m_table s). y \<in> dom ((heap s)(e \<mapsto> ?h')) \<and> ident ((heap s)(e \<mapsto> ?h')) y = ident (heap s) y"
      proof
        fix y assume y: "y \<in> entries (m_table s)"
        with entries_bucket(2) [OF d(1) y] h
        show "y \<in> dom ((heap s)(e \<mapsto> ?h')) \<and> ident ((heap s)(e \<mapsto> ?h')) y = ident (heap s) y"
          by (simp add: ident_def)
      qed
      from table_frame [OF d(1) this] show ?thesis by simp
    qed
    show "distinct (m_lru ?s')" using d(2) by simp
    show "set (m_lru ?s') = entries (m_table ?s')" using d(2,3) el by auto
    show "dom (heap ?s') \<subseteq> {..<next_free ?s'}" using d(4) domeq by simp
    show "refs_ok ?s' (held(e := held e + 1)) (\<lambda>x. 0)"
      unfolding refs_ok_def
    proof (intro allI impI)
      fix y hy assume a: "heap ?s' y = Some hy"
      show "unat (h_refs hy) = (if y \<in> set (m_lru ?s') then 1 else 0) + (held(e := held e + 1)) y + 0
            \<and> 0 < unat (h_refs hy)"
      proof (cases "y = e")
        case True
        with a have "hy = ?h'" by simp
        with True r inc el show ?thesis by simp
      next
        case False
        with a have "heap s y = Some hy" by simp
        from refs_okD [OF d(5) this] False d(2) show ?thesis by simp
      qed
    qed
    show "holders_live ?s' (held(e := held e + 1)) (\<lambda>x. 0)"
      unfolding holders_live_def
    proof (intro allI impI)
      fix y assume "y \<notin> dom (heap ?s')"
      then have "y \<noteq> e" "y \<notin> dom (heap s)" by simp_all
      with holders_liveD(1) [OF d(6) this(2)]
      show "(held(e := held e + 1)) y = 0 \<and> (0 :: nat) = 0" by simp
    qed
    have lc: "live_charge ?s' = live_charge s"
      by (rule live_charge_update [OF h, where h' = ?h']) simp_all
    show "m_usage ?s' = live_charge ?s'" using d(7) lc by simp
    show "consumption ?s' = live_charge ?s'" using d(8) lc by simp
    show "deleted_ok ?s'" using d(9) domeq by (simp add: deleted_ok_def)
  qed
qed

lemma Lookup_miss:
  "LRUCache_Lookup s key hash = (None, s') \<Longrightarrow> s' = s"
  by (auto simp: LRUCache_Lookup_def Let_def split: option.splits)

lemma Release_inv:
  assumes inv: "cache_inv s held (\<lambda>x. 0)" and h: "0 < held e"
  shows "cache_inv (LRUCache_Release s e) (held(e := held e - 1)) (\<lambda>x. 0)"
proof -
  note d = cache_invD [OF inv]
  have live: "e \<in> dom (heap s)"
  proof (rule ccontr)
    assume "e \<notin> dom (heap s)"
    from holders_liveD(1) [OF d(6) this] h show False by simp
  qed
  have shifted: "cache_inv s (held(e := held e - 1)) ((\<lambda>x. 0)(e := 1))"
  proof (rule cache_invI)
    show "refs_ok s (held(e := held e - 1)) ((\<lambda>x. 0)(e := 1))"
      unfolding refs_ok_def
    proof (intro allI impI)
      fix y hy assume a: "heap s y = Some hy"
      from refs_okD [OF d(5) a] h
      show "unat (h_refs hy) = (if y \<in> set (m_lru s) then 1 else 0) + (held(e := held e - 1)) y
               + ((\<lambda>x. 0)(e := 1)) y
            \<and> 0 < unat (h_refs hy)"
        by (cases "y = e") simp_all
    qed
    show "holders_live s (held(e := held e - 1)) ((\<lambda>x. 0)(e := 1))"
      unfolding holders_live_def
    proof (intro allI impI)
      fix y assume y: "y \<notin> dom (heap s)"
      with live have "y \<noteq> e" by blast
      with holders_liveD(1) [OF d(6) y]
      show "(held(e := held e - 1)) y = 0 \<and> ((\<lambda>x. 0)(e := 1 :: nat)) y = 0" by simp
    qed
  qed (rule d)+
  have "0 < ((\<lambda>x. 0)(e := 1 :: nat)) e" by simp
  from Unref_inv [OF shifted this] show ?thesis
    by (simp only: fun_upd_one_zero LRUCache_Release_def)
qed

lemma Erase_inv:
  assumes inv: "cache_inv s held (\<lambda>x. 0)"
  shows "cache_inv (LRUCache_Erase s key hash) held (\<lambda>x. 0)"
proof -
  obtain r t' where res: "HandleTable_Remove (heap s) (m_table s) key hash = (r, t')"
    by (cases "HandleTable_Remove (heap s) (m_table s) key hash")
  show ?thesis
  proof (cases r)
    case None
    with res inv show ?thesis by (simp add: LRUCache_Erase_def)
  next
    case (Some e)
    have "LRU_Remove (s\<lparr>m_table := t'\<rparr>) e = s\<lparr>m_lru := remove1 e (m_lru s), m_table := t'\<rparr>"
      by (cases s) (simp add: LRU_Remove_def)
    with res Some have "LRUCache_Erase s key hash = Unref (s\<lparr>m_lru := remove1 e (m_lru s), m_table := t'\<rparr>) e"
      by (simp add: LRUCache_Erase_def)
    with drop_cached_inv [OF inv res [unfolded Some]] show ?thesis by simp
  qed
qed

lemma new_inv: "cache_inv (LRUCache_new capacity) (\<lambda>x. 0) (\<lambda>x. 0)"
  by (rule cache_invI)
     (simp_all add: LRUCache_new_def table_new_ok table_new_entries refs_ok_def holders_live_def
                    live_charge_def deleted_ok_def)

lemma step_inv:
  assumes inv: "client_inv c" and st: "step op c = Some c'"
  shows "client_inv c'"
proof -
  obtain s held where c: "c = (s, held)" by (cases c)
  with inv have i: "cache_inv s held (\<lambda>x. 0)" by (simp add: client_inv_def)
  show ?thesis
  proof (cases op)
    case (OpInsert key hash val charge deleter)
    obtain e s' where r: "LRUCache_Insert s key hash val charge deleter = (e, s')"
      by (cases "LRUCache_Insert s key hash val charge deleter")
    with st c OpInsert have "c' = (s', held(e := held e + 1))" by simp
    with Insert_inv(1) [OF i r] show ?thesis by (simp add: client_inv_def)
  next
    case (OpLookup key hash)
    obtain r s' where l: "LRUCache_Lookup s key hash = (r, s')"
      by (cases "LRUCache_Lookup s key hash")
    show ?thesis
    proof (cases r)
      case None
      with l st c OpLookup Lookup_miss [of s key hash s'] have "c' = (s, held)" by simp
      with i show ?thesis by (simp add: client_inv_def)
    next
      case (Some e)
      with l st c OpLookup have room: "held e + 2 < 2 ^ 32" and c': "c' = (s', held(e := held e + 1))"
        by (simp_all split: if_splits)
      from Lookup_inv [OF i l [unfolded Some] room] c' show ?thesis by (simp add: client_inv_def)
    qed
  next
    case (OpRelease handle)
    with st c have h: "0 < held handle" and c': "c' = (LRUCache_Release s handle, held(handle := held handle - 1))"
      by (simp_all split: if_splits)
    from Release_inv [OF i h] c' show ?thesis by (simp add: client_inv_def)
  next
    case (OpErase key hash)
    with st c have "c' = (LRUCache_Erase s key hash, held)" by simp
    with Erase_inv [OF i] show ?thesis by (simp add: client_inv_def)
  qed
qed

lemma run_inv:
  "client_inv c \<Longrightarrow> run ops c = Some c' \<Longrightarrow> client_inv c'"
proof (induction ops arbitrary: c)
  case Nil
  then show ?case by simp
next
  case (Cons op ops)
  from Cons.prems(2) obtain c1 where 1: "step op c = Some c1" and 2: "run ops c1 = Some c'"
    by (auto split: option.splits)
  from Cons.IH [OF step_inv [OF Cons.prems(1) 1] 2] show ?case .
qed

lemma Client_new_inv: "client_inv (Client_new capacity)"
  by (simp add: client_inv_def Client_new_def new_inv)

subsection \<open>Concrete runs\<close>

lemma HandleTable_new_eq:
  "HandleTable_new = \<lparr>m_length = 4, m_elems = 0, m_list = [[], [], [], []]\<rparr>"
proof -
  have "Resize_length 4 0 = 4" by (subst Resize_length.simps) simp
  then show ?thesis
    by (simp add: HandleTable_new_def HandleTable_Resize_def Let_def numeral_eq_Suc)
qed

lemma bucket_7: "unat (7 :: 32 word) AND (4 - 1 :: nat) = 3"
  by simp

lemma insert_A_eq:
  "insert_A =
     (0, \<lparr>m_capacity = 5, m_usage = 10, m_lru = [],
          m_table = \<lparr>m_length = 4, m_elems = 0, m_list = [[], [], [], []]\<rparr>,
          heap = [0 \<mapsto> \<lparr>h_value = 100, h_deleter = 1, h_charge = 10, h_key = ''A'',
                          h_refs = 1, h_hash = 7\<rparr>],
          next_free = 1, consumption = 10, deleted = []\<rparr>)"
  by (simp add: insert_A_def LRUCache_Insert_def LRUCache_new_def HandleTable_new_eq Let_def
                LRU_Append_def LRU_Remove_def HandleTable_Insert_def FindPointer_def deref_def
                HandleTable_Remove_def evict.simps evict_oldest_def Unref_def)


lemma replace_run:
  "run replace_ops (Client_new 100) = Some (replaced, (\<lambda>e. 0)(0 := 1, 1 := 1))"
  by (simp add: replace_ops_def replaced_def Client_new_def LRUCache_Insert_def LRUCache_new_def
                HandleTable_new_eq Let_def LRU_Append_def LRU_Remove_def HandleTable_Insert_def
                FindPointer_def deref_def HandleTable_Remove_def evict.simps evict_oldest_def
                Unref_def fun_upd_twist)

lemma release_run:
  "run release_ops (Client_new 5) = Some (released, \<lambda>e. 0)"
  by (simp add: release_ops_def released_def Client_new_def LRUCache_Insert_def LRUCache_new_def
                HandleTable_new_eq Let_def LRU_Append_def LRU_Remove_def HandleTable_Insert_def
                FindPointer_def deref_def HandleTable_Remove_def evict.simps evict_oldest_def
                Unref_def LRUCache_Release_def, simp add: fun_eq_iff)


text \<open>
  A run in which the usage wraps: a first entry of charge \<open>2^64 - 6\<close>, kept by its
  caller, then an entry of charge 6 into the same shard of capacity 5. The usage is back at
  0, and the second entry, larger than the shard, stays cached and is found.
\<close>

lemma wrap_run:
  "run wrap_ops (Client_new 5) = Some (wrapped, (\<lambda>e. 0)(0 := 1, 1 := 1))"
  by (simp add: wrap_ops_def wrapped_def Client_new_def LRUCache_Insert_def LRUCache_new_def
                HandleTable_new_eq Let_def LRU_Append_def LRU_Remove_def HandleTable_Insert_def
                FindPointer_def deref_def HandleTable_Remove_def evict.simps evict_oldest_def
                Unref_def fun_upd_twist)

lemma wrap_found:
  "fst (LRUCache_Lookup wrapped ''B'' 8) = Some 1 \<and> m_capacity wrapped < h_charge (the (heap wrapped 1))"
  by (simp add: wrapped_def LRUCache_Lookup_def HandleTable_Lookup_def FindPointer_def deref_def Let_def)

subsection \<open>Consequences of the invariant\<close>

lemma empty_lru_no_hit:
  assumes inv: "cache_inv s held extra" and e: "m_lru s = []"
  shows "LRUCache_Lookup s key hash = (None, s)"
proof -
  note d = cache_invD [OF inv]
  from d(3) e have "entries (m_table s) = {}" by simp
  have "HandleTable_Lookup (heap s) (m_table s) key hash = None"
  proof (cases "HandleTable_Lookup (heap s) (m_table s) key hash")
    case (Some a)
    with table_Lookup_iff [OF d(1), where key = key and hash = hash and e = a]
      \<open>entries (m_table s) = {}\<close> show ?thesis by simp
  qed simp
  then show ?thesis by (simp add: LRUCache_Lookup_def)
qed

lemma live_is_cached:
  assumes inv: "cache_inv s held (\<lambda>x. 0)" and all: "\<forall>e. 0 < held e \<longrightarrow> e \<in> set (m_lru s)"
  shows "live_charge s = cached_charge s"
proof -
  note d = cache_invD [OF inv]
  have "dom (heap s) = set (m_lru s)"
  proof
    show "dom (heap s) \<subseteq> set (m_lru s)"
    proof
      fix e assume "e \<in> dom (heap s)"
      then obtain h where h: "heap s e = Some h" by blast
      from refs_okD [OF d(5) h] all show "e \<in> set (m_lru s)"
        by (cases "e \<in> set (m_lru s)") auto
    qed
    show "set (m_lru s) \<subseteq> dom (heap s)" using cache_inv_lru_live [OF inv] by blast
  qed
  then show ?thesis
    unfolding live_charge_def cached_charge_def
    using sum_list_distinct_conv_sum_set [OF d(2), of "\<lambda>e. h_charge (the (heap s e))"] by simp
qed

lemma distinct_unique_index:
  assumes "distinct xs" and "x \<in> set xs"
  shows "\<exists>!i. i < length xs \<and> xs ! i = x"
proof -
  from assms(2) obtain i where i: "i < length xs" "xs ! i = x" by (auto simp: in_set_conv_nth)
  show ?thesis
  proof (rule ex1I [of _ i])
    from i show "i < length xs \<and> xs ! i = x" by simp
  next
    fix j assume "j < length xs \<and> xs ! j = x"
    with i have "j < length xs" "i < length xs" "xs ! j = xs ! i" by simp_all
    with nth_eq_iff_index_eq [OF assms(1), of j i] show "j = i" by simp
  qed
qed

lemma deleted_once:
  assumes inv: "cache_inv s held extra" and e: "e < next_free s" and f: "e \<notin> dom (heap s)"
  shows "\<exists>!i. i < length (deleted s) \<and> fst (deleted s ! i) = e"
proof -
  from cache_invD(9) [OF inv] have dis: "distinct (map fst (deleted s))"
    and img: "fst ` set (deleted s) = {..<next_free s} - dom (heap s)"
    by (simp_all add: deleted_ok_def)
  from img e f have "e \<in> set (map fst (deleted s))" by auto
  from distinct_unique_index [OF dis this] show ?thesis by (simp cong: conj_cong)
qed

lemma live_not_deleted:
  assumes inv: "cache_inv s held extra" and h: "heap s e = Some h"
  shows "e \<notin> fst ` set (deleted s)"
proof -
  from cache_invD(9) [OF inv] have "fst ` set (deleted s) = {..<next_free s} - dom (heap s)"
    by (simp add: deleted_ok_def)
  with h show ?thesis by auto
qed

lemma holder_live:
  assumes inv: "cache_inv s held (\<lambda>x. 0)" and e: "e \<in> set (m_lru s) \<or> 0 < held e"
  shows "e \<in> dom (heap s)"
proof (rule ccontr)
  assume n: "e \<notin> dom (heap s)"
  from holders_liveD(1) [OF cache_invD(6) [OF inv] n] have "held e = 0" .
  moreover from cache_inv_lru_live [OF inv] n have "e \<notin> set (m_lru s)" by blast
  ultimately show False using e by simp
qed

lemma Unref_cases:
  assumes "heap s e = Some h"
  shows "Unref s e =
           (if h_refs h = 1
            then s\<lparr>m_usage := m_usage s - h_charge h,
                   deleted := deleted s @ [(e, h_deleter h, h_key h, h_value h)],
                   consumption := consumption s - h_charge h,
                   heap := (heap s)(e := None)\<rparr>
            else s\<lparr>heap := (heap s)(e \<mapsto> h\<lparr>h_refs := h_refs h - 1\<rparr>)\<rparr>)"
  using Unref_free [OF assms] Unref_keep [OF assms] by simp

lemma unat_sum_no_wrap:
  fixes f :: "'a \<Rightarrow> 64 word"
  assumes "finite A"
  shows "(\<Sum>a\<in>A. unat (f a)) < 2 ^ 64 \<Longrightarrow> unat (\<Sum>a\<in>A. f a) = (\<Sum>a\<in>A. unat (f a))"
  using assms
proof (induction A rule: finite_induct)
  case empty
  then show ?case by simp
next
  case (insert x F)
  from insert.hyps insert.prems have lt: "unat (f x) + (\<Sum>a\<in>F. unat (f a)) < 2 ^ 64" by simp
  then have "(\<Sum>a\<in>F. unat (f a)) < 2 ^ 64" by simp
  from insert.IH [OF this] have ih: "unat (\<Sum>a\<in>F. f a) = (\<Sum>a\<in>F. unat (f a))" .
  with lt have "unat (f x) + unat (\<Sum>a\<in>F. f a) < 2 ^ LENGTH(64)" by simp
  then have "unat (f x + (\<Sum>a\<in>F. f a)) = unat (f x) + unat (\<Sum>a\<in>F. f a)"
    by (simp only: unat_add_lem)
  with ih insert.hyps show ?case by simp
qed

lemma Insert_live_total:
  assumes inv: "cache_inv s held (\<lambda>x. 0)"
    and res: "LRUCache_Insert s key hash val charge deleter = (e, s')"
  shows "unat charge \<le> live_total s'" and "live_total s' \<le> live_total s + unat charge"
proof -
  let ?hnew = "\<lparr>h_value = val, h_deleter = deleter, h_charge = charge,
                 h_key = key, h_refs = 2, h_hash = hash\<rparr>"
  note i = Insert_inv [OF inv res]
  note d = cache_invD [OF inv]
  have fin: "finite (dom (heap s))" by (rule cache_inv_finite [OF inv])
  have fin': "finite (dom (heap s'))" by (rule cache_inv_finite [OF i(1)])
  from d(4) i(2) have enew: "e \<notin> dom (heap s)" by auto
  have elive: "e \<in> dom (heap s')"
  proof (rule ccontr)
    assume "e \<notin> dom (heap s')"
    from holders_liveD(1) [OF cache_invD(6) [OF i(1)] this] show False by simp
  qed
  then obtain he where he: "heap s' e = Some he" by blast
  from heap_leD(2) [OF i(5) he] have ce: "h_charge he = charge" by simp
  let ?g' = "\<lambda>a. unat (h_charge (the (heap s' a)))"
  let ?g = "\<lambda>a. unat (h_charge (the (heap s a)))"
  have split: "live_total s' = ?g' e + sum ?g' (dom (heap s') - {e})"
    unfolding live_total_def by (rule sum.remove [OF fin' elive])
  have ge: "?g' e = unat charge" using he ce by simp
  have same: "sum ?g' (dom (heap s') - {e}) = sum ?g (dom (heap s') - {e})"
  proof (rule sum.cong [OF refl])
    fix a assume "a \<in> dom (heap s') - {e}"
    then obtain h' where h': "heap s' a = Some h'" and ne: "a \<noteq> e" by blast
    from heap_leD(2) [OF i(5) h'] ne have "h_charge (the (heap s a)) = h_charge h'" by simp
    with h' show "?g' a = ?g a" by simp
  qed
  have sub: "dom (heap s') - {e} \<subseteq> dom (heap s)"
  proof
    fix a assume "a \<in> dom (heap s') - {e}"
    then obtain h' where h': "heap s' a = Some h'" and ne: "a \<noteq> e" by blast
    from heap_leD(1) [OF i(5) h'] ne show "a \<in> dom (heap s)" by simp
  qed
  have "sum ?g (dom (heap s') - {e}) \<le> sum ?g (dom (heap s))"
    by (rule sum_mono2 [OF fin sub]) simp
  then have le: "sum ?g' (dom (heap s') - {e}) \<le> live_total s"
    by (simp add: same live_total_def)
  from split ge show "unat charge \<le> live_total s'" by simp
  from split ge le show "live_total s' \<le> live_total s + unat charge" by simp
qed

lemma usage_no_wrap:
  assumes inv: "cache_inv s held extra" and lt: "live_total s < 2 ^ 64"
  shows "unat (m_usage s) = live_total s"
proof -
  have fin: "finite (dom (heap s))" by (rule cache_inv_finite [OF inv])
  from unat_sum_no_wrap [OF fin, of "\<lambda>e. h_charge (the (heap s e))"] lt
  have "unat (live_charge s) = live_total s" by (simp add: live_total_def live_charge_def)
  with cache_invD(7) [OF inv] show ?thesis by simp
qed

lemma live_split:
  assumes inv: "cache_inv s held extra"
  shows "live_charge s = cached_charge s + departed_charge s"
proof -
  note d = cache_invD [OF inv]
  have fin: "finite (dom (heap s))" by (rule cache_inv_finite [OF inv])
  have sub: "set (m_lru s) \<subseteq> dom (heap s)" using cache_inv_lru_live [OF inv] by blast
  let ?c = "\<lambda>e. h_charge (the (heap s e))"
  have "sum ?c (dom (heap s)) = sum ?c (dom (heap s) - set (m_lru s)) + sum ?c (set (m_lru s))"
    by (rule sum.subset_diff [OF sub fin])
  moreover have "sum ?c (set (m_lru s)) = cached_charge s"
    unfolding cached_charge_def using sum_list_distinct_conv_sum_set [OF d(2), of ?c] by simp
  ultimately show ?thesis by (simp add: live_charge_def departed_charge_def)
qed

lemma departed_held:
  assumes inv: "cache_inv s held (\<lambda>x. 0)"
  shows "dom (heap s) - set (m_lru s) = {e. 0 < held e \<and> e \<notin> set (m_lru s)}"
proof (rule set_eqI)
  fix e
  note d = cache_invD [OF inv]
  show "(e \<in> dom (heap s) - set (m_lru s)) = (e \<in> {e. 0 < held e \<and> e \<notin> set (m_lru s)})"
  proof (cases "e \<in> dom (heap s)")
    case True
    then obtain h where h: "heap s e = Some h" by blast
    from refs_okD [OF d(5) h] True show ?thesis by (cases "e \<in> set (m_lru s)") auto
  next
    case False
    from holders_liveD(1) [OF d(6) False] False show ?thesis by simp
  qed
qed

subsection \<open>An entry larger than the shard\<close>

text \<open>
  Claim C1. After \<open>LRUCache::Insert\<close> returns, the usage is at most the capacity or the
  LRU list is empty. The eviction loop does not spare the new entry, which is the newest of
  the LRU list: whenever the usage still exceeds the capacity after the insert, the loop has
  emptied the list, so that no lookup finds any key, and the new entry lives only through
  the handle returned to the caller (its reference count is 1). This is the case whenever
  the charge of the new entry exceeds the capacity and the charges of the entries not yet
  freed, with the new charge, add up to less than \<open>2^64\<close>: then the lookup of the key
  just inserted returns null. After the insert of A with charge 10 into a new shard of
  capacity 5 the usage is 10 and the lookup of A returns null.
\<close>

theorem Insert_over_capacity:
  assumes "client_inv (s, held)"
    and "LRUCache_Insert s key hash val charge deleter = (e, s')"
  shows "(m_usage s' \<le> m_capacity s' \<or> m_lru s' = [])
       \<and> (m_capacity s' < m_usage s' \<longrightarrow>
            m_lru s' = [] \<and> (\<forall>k h. LRUCache_Lookup s' k h = (None, s'))
            \<and> (\<exists>entry. heap s' e = Some entry \<and> h_refs entry = 1))
       \<and> (m_capacity s < charge \<and> live_total s + unat charge < 2 ^ 64 \<longrightarrow>
            m_capacity s' < m_usage s' \<and> m_lru s' = []
            \<and> LRUCache_Lookup s' key hash = (None, s')
            \<and> (\<exists>entry. heap s' e = Some entry \<and> h_refs entry = 1))"
proof -
  from assms(1) have inv: "cache_inv s held (\<lambda>x. 0)" by (simp add: client_inv_def)
  note i = Insert_inv [OF inv assms(2)]
  note d = cache_invD [OF inv]
  note d' = cache_invD [OF i(1)]
  from i(4) have post: "m_usage s' \<le> m_capacity s' \<or> m_lru s' = []" by (auto simp: not_less)
  have over: "m_lru s' = [] \<and> (\<forall>k h. LRUCache_Lookup s' k h = (None, s'))
            \<and> (\<exists>entry. heap s' e = Some entry \<and> h_refs entry = 1)"
    if "m_capacity s' < m_usage s'"
  proof -
    from that i(4) have empty: "m_lru s' = []" by blast
    have miss: "\<forall>k h. LRUCache_Lookup s' k h = (None, s')"
      using empty_lru_no_hit [OF i(1) empty] by blast
    from d(4) i(2) have "e \<notin> dom (heap s)" by auto
    from holders_liveD(1) [OF d(6) this] have h0: "held e = 0" .
    have "e \<in> dom (heap s')"
    proof (rule ccontr)
      assume "e \<notin> dom (heap s')"
      from holders_liveD(1) [OF d'(6) this] show False by simp
    qed
    then obtain entry where en: "heap s' e = Some entry" by blast
    from refs_okD(1) [OF d'(5) en] empty h0 have "unat (h_refs entry) = unat (1 :: 32 word)" by simp
    then have "h_refs entry = 1" by (simp only: word_unat_eq_iff)
    with en empty miss show ?thesis by blast
  qed
  have big: "m_capacity s' < m_usage s'"
    if c: "m_capacity s < charge" and nw: "live_total s + unat charge < 2 ^ 64"
  proof -
    note t = Insert_live_total [OF inv assms(2)]
    from t(2) nw have "live_total s' < 2 ^ 64" by simp
    from usage_no_wrap [OF i(1) this] t(1) have "unat charge \<le> unat (m_usage s')" by simp
    then have "charge \<le> m_usage s'" by (simp add: word_le_nat_alt)
    with c i(3) show ?thesis by simp
  qed
  from post over big show ?thesis by blast
qed

theorem Insert_over_capacity_witness:
  "client_inv (LRUCache_new 5, \<lambda>e. 0)
   \<and> LRUCache_Insert (LRUCache_new 5) ''A'' 7 100 10 1 = insert_A
   \<and> m_capacity (LRUCache_new 5) < 10
   \<and> live_total (LRUCache_new 5) + unat (10 :: 64 word) < 2 ^ 64
   \<and> m_capacity (snd insert_A) < m_usage (snd insert_A)
   \<and> m_lru (snd insert_A) = []
   \<and> LRUCache_Lookup (snd insert_A) ''A'' 7 = (None, snd insert_A)
   \<and> h_refs (the (heap (snd insert_A) (fst insert_A))) = 1"
proof -
  have inv: "client_inv (LRUCache_new 5, \<lambda>e. 0)"
    using Client_new_inv [of 5] by (simp add: Client_new_def)
  have run: "LRUCache_Insert (LRUCache_new 5) ''A'' 7 100 10 1 = (fst insert_A, snd insert_A)"
    by (simp add: insert_A_def)
  have eq: "LRUCache_Insert (LRUCache_new 5) ''A'' 7 100 10 1 = insert_A"
    by (simp add: insert_A_def)
  have c: "m_capacity (LRUCache_new 5) < 10" by (simp add: LRUCache_new_def)
  have nw: "live_total (LRUCache_new 5) + unat (10 :: 64 word) < 2 ^ 64"
    by (simp add: live_total_def LRUCache_new_def)
  from Insert_over_capacity [OF inv run] c nw
  have "m_capacity (snd insert_A) < m_usage (snd insert_A)"
    and "m_lru (snd insert_A) = []"
    and "LRUCache_Lookup (snd insert_A) ''A'' 7 = (None, snd insert_A)"
    and "\<exists>entry. heap (snd insert_A) (fst insert_A) = Some entry \<and> h_refs entry = 1"
    by blast+
  with inv eq c nw show ?thesis by auto
qed

theorem oversized_entry_not_retrievable:
  "m_usage (snd insert_A) = 10
   \<and> fst (LRUCache_Lookup (snd insert_A) ''A'' 7) = None
   \<and> m_lru (snd insert_A) = []
   \<and> m_list (m_table (snd insert_A)) = [[], [], [], []]"
  by (simp add: insert_A_eq LRUCache_Lookup_def HandleTable_Lookup_def FindPointer_def deref_def)

subsection \<open>What the usage counts\<close>

text \<open>
  Claim C4. Between two operations of a shard, the LRU list and the hash table hold the same
  entries, and the usage is the sum (in \<open>size_t\<close>) of the charges of the entries not yet
  freed: the charges of the entries of the LRU list, plus the charges of the entries that
  have left the cache (replaced, erased or evicted), which are those that a caller still
  holds; their charge leaves the usage in \<open>Unref\<close> only, when the last reference goes.
  Insert, lookup, release and erase keep this. In a state where no caller holds a handle to
  an entry that has left the cache, the usage is the sum of the charges of the entries held
  by the cache.
\<close>

theorem usage_is_live_charge:
  "client_inv (Client_new capacity)
   \<and> (client_inv c \<and> step op c = Some c' \<longrightarrow> client_inv c')
   \<and> (client_inv c \<longrightarrow>
        set (m_lru (fst c)) = entries (m_table (fst c))
        \<and> m_usage (fst c) = live_charge (fst c)
        \<and> m_usage (fst c) = cached_charge (fst c) + departed_charge (fst c)
        \<and> dom (heap (fst c)) - set (m_lru (fst c)) = {e. 0 < snd c e \<and> e \<notin> set (m_lru (fst c))}
        \<and> ((\<forall>e. 0 < snd c e \<longrightarrow> e \<in> set (m_lru (fst c))) \<longrightarrow>
             m_usage (fst c) = cached_charge (fst c)))"
proof -
  have 1: "client_inv (Client_new capacity)" by (rule Client_new_inv)
  have 2: "client_inv c \<and> step op c = Some c' \<longrightarrow> client_inv c'"
    using step_inv by blast
  have 3: "set (m_lru (fst c)) = entries (m_table (fst c))
        \<and> m_usage (fst c) = live_charge (fst c)
        \<and> m_usage (fst c) = cached_charge (fst c) + departed_charge (fst c)
        \<and> dom (heap (fst c)) - set (m_lru (fst c)) = {e. 0 < snd c e \<and> e \<notin> set (m_lru (fst c))}
        \<and> ((\<forall>e. 0 < snd c e \<longrightarrow> e \<in> set (m_lru (fst c))) \<longrightarrow>
             m_usage (fst c) = cached_charge (fst c))" if "client_inv c"
  proof -
    from that have inv: "cache_inv (fst c) (snd c) (\<lambda>x. 0)" by (simp add: client_inv_def)
    note d = cache_invD [OF inv]
    from d(7) live_split [OF inv]
    have "m_usage (fst c) = cached_charge (fst c) + departed_charge (fst c)" by simp
    with d(3) d(7) departed_held [OF inv] live_is_cached [OF inv] show ?thesis by simp
  qed
  from 1 2 3 show ?thesis by blast
qed

theorem usage_is_live_charge_witness:
  "client_inv (Client_new 100)
   \<and> run replace_ops (Client_new 100) = Some (replaced, (\<lambda>e. 0)(0 := 1, 1 := 1))
   \<and> client_inv (replaced, (\<lambda>e. 0)(0 := 1, 1 := 1))
   \<and> m_usage replaced = live_charge replaced
   \<and> m_usage replaced = cached_charge replaced + departed_charge replaced
   \<and> m_usage replaced = 2 \<and> cached_charge replaced = 1"
proof -
  obtain c1 where 1: "step (OpInsert ''A'' 7 100 1 1) (Client_new 100) = Some c1"
    and 2: "step (OpInsert ''A'' 7 101 1 1) c1 = Some (replaced, (\<lambda>e. 0)(0 := 1, 1 := 1))"
    using replace_run by (auto simp: replace_ops_def split: option.splits prod.splits)
  have i0: "client_inv (Client_new 100)"
    using usage_is_live_charge [of 100] by blast
  have i1: "client_inv c1"
    using usage_is_live_charge [of 100 "Client_new 100" "OpInsert ''A'' 7 100 1 1" c1] i0 1 by blast
  have i2: "client_inv (replaced, (\<lambda>e. 0)(0 := 1, 1 := 1))"
    using usage_is_live_charge [of 100 c1 "OpInsert ''A'' 7 101 1 1" "(replaced, (\<lambda>e. 0)(0 := 1, 1 := 1))"] i1 2
    by blast
  note u = usage_is_live_charge [of 100 "(replaced, (\<lambda>e. 0)(0 := 1, 1 := 1))",
                                 THEN conjunct2, THEN conjunct2, THEN mp, OF i2]
  have a: "m_usage replaced = live_charge replaced"
    using u [THEN conjunct2, THEN conjunct1] by (simp only: fst_conv)
  have b: "m_usage replaced = cached_charge replaced + departed_charge replaced"
    using u [THEN conjunct2, THEN conjunct2, THEN conjunct1] by (simp only: fst_conv)
  have c: "m_usage replaced = 2" "cached_charge replaced = 1"
    by (simp_all add: replaced_def cached_charge_def)
  from i0 replace_run i2 a b c show ?thesis by (intro conjI)
qed

theorem usage_counts_replaced_entry:
  "run replace_ops (Client_new 100) = Some (replaced, (\<lambda>e. 0)(0 := 1, 1 := 1))
   \<and> m_usage replaced = 2 \<and> m_lru replaced = [1] \<and> cached_charge replaced = 1
   \<and> m_usage replaced \<noteq> cached_charge replaced"
  using replace_run by (simp add: replaced_def cached_charge_def)

subsection \<open>Reference counts and deleters\<close>

text \<open>
  Claim C8. After any history of inserts, lookups, releases and erases in which callers
  release only handles they hold: an entry held by the cache or by a caller is allocated;
  the reference count of an allocated entry is at least 1 and counts the reference of the
  cache and the handles of the callers; dropping a reference with \<open>Unref\<close> frees the
  entry exactly when the count was 1, then runs its deleter on its key and value and gives its
  charge back to the memory tracker, and otherwise only decrements the count; every entry
  freed so far has had its deleter run exactly once, no allocated entry has, and the memory
  tracker holds the charges of the allocated entries.
\<close>

theorem deleter_runs_once:
  assumes "run ops (Client_new capacity) = Some (s, held)"
  shows "(\<forall>e. e \<in> set (m_lru s) \<or> 0 < held e \<longrightarrow> e \<in> dom (heap s))
       \<and> (\<forall>e h. heap s e = Some h \<longrightarrow>
             1 \<le> unat (h_refs h)
             \<and> unat (h_refs h) = (if e \<in> set (m_lru s) then 1 else 0) + held e
             \<and> e \<notin> fst ` set (deleted s)
             \<and> Unref s e =
                 (if h_refs h = 1
                  then s\<lparr>m_usage := m_usage s - h_charge h,
                         deleted := deleted s @ [(e, h_deleter h, h_key h, h_value h)],
                         consumption := consumption s - h_charge h,
                         heap := (heap s)(e := None)\<rparr>
                  else s\<lparr>heap := (heap s)(e \<mapsto> h\<lparr>h_refs := h_refs h - 1\<rparr>)\<rparr>))
       \<and> (\<forall>e. e < next_free s \<and> e \<notin> dom (heap s) \<longrightarrow>
             (\<exists>!i. i < length (deleted s) \<and> fst (deleted s ! i) = e))
       \<and> consumption s = live_charge s"
proof -
  from run_inv [OF Client_new_inv assms] have inv: "cache_inv s held (\<lambda>x. 0)"
    by (simp add: client_inv_def)
  note d = cache_invD [OF inv]
  have 1: "\<forall>e. e \<in> set (m_lru s) \<or> 0 < held e \<longrightarrow> e \<in> dom (heap s)"
    using holder_live [OF inv] by blast
  have 2: "1 \<le> unat (h_refs h)
             \<and> unat (h_refs h) = (if e \<in> set (m_lru s) then 1 else 0) + held e
             \<and> e \<notin> fst ` set (deleted s)
             \<and> Unref s e =
                 (if h_refs h = 1
                  then s\<lparr>m_usage := m_usage s - h_charge h,
                         deleted := deleted s @ [(e, h_deleter h, h_key h, h_value h)],
                         consumption := consumption s - h_charge h,
                         heap := (heap s)(e := None)\<rparr>
                  else s\<lparr>heap := (heap s)(e \<mapsto> h\<lparr>h_refs := h_refs h - 1\<rparr>)\<rparr>)"
    if h: "heap s e = Some h" for e h
  proof -
    from refs_okD [OF d(5) h] have "1 \<le> unat (h_refs h)"
      and "unat (h_refs h) = (if e \<in> set (m_lru s) then 1 else 0) + held e"
      by (simp_all split: if_splits)
    moreover note live_not_deleted [OF inv h] Unref_cases [OF h]
    ultimately show ?thesis by blast
  qed
  have 3: "\<forall>e. e < next_free s \<and> e \<notin> dom (heap s) \<longrightarrow>
             (\<exists>!i. i < length (deleted s) \<and> fst (deleted s ! i) = e)"
    using deleted_once [OF inv] by blast
  from 1 2 3 d(8) show ?thesis by blast
qed

theorem deleter_runs_once_witness:
  "run release_ops (Client_new 5) = Some (released, \<lambda>e. 0)
   \<and> deleted released = [(0, 1, ''A'', 100)]
   \<and> heap released 0 = None
   \<and> (\<exists>!i. i < length (deleted released) \<and> fst (deleted released ! i) = 0)
   \<and> consumption released = live_charge released
   \<and> consumption released = 0"
proof -
  have "0 < next_free released \<and> 0 \<notin> dom (heap released)" by (simp add: released_def)
  with deleter_runs_once [OF release_run]
  have "\<exists>!i. i < length (deleted released) \<and> fst (deleted released ! i) = 0"
    and "consumption released = live_charge released" by blast+
  moreover have "deleted released = [(0, 1, ''A'', 100)]" "heap released 0 = None"
    "consumption released = 0" by (simp_all add: released_def)
  ultimately show ?thesis using release_run by simp
qed

end
